theory Spec2Isabelle
  imports Complex_Main "HOL-Library.Multiset"
begin

section \<open>Time decomposition (phase2cli/src/lib/utils.ts, getSecondsMinutesHoursFromMillis)\<close>

text \<open>
  A JavaScript \<open>number\<close> is modelled as an exact real: rounding of the IEEE double
  arithmetic is not part of the model. \<open>Math.floor\<close> yields an integer-valued number,
  modelled as \<open>int\<close>. The operator \<open>%\<close> is the truncated remainder, whose sign follows
  the dividend.
\<close>

definition jsRem :: "int \<Rightarrow> int \<Rightarrow> int" where
  "jsRem a b = sgn a * (\<bar>a\<bar> mod \<bar>b\<bar>)"

record Timing =
  seconds :: int
  minutes :: int
  hours :: int
  days :: int

text \<open>The four constants of the function as they stand just before the object literal is built.\<close>

definition rawTiming :: "real \<Rightarrow> Timing" where
  "rawTiming millis =
     (let delta0 = millis / 1000;
          d = \<lfloor>delta0 / 86400\<rfloor>;
          delta1 = delta0 - of_int d * 86400;
          h = jsRem \<lfloor>delta1 / 3600\<rfloor> 24;
          delta2 = delta1 - of_int h * 3600;
          m = jsRem \<lfloor>delta2 / 60\<rfloor> 60;
          delta3 = delta2 - of_int m * 60;
          s = jsRem \<lfloor>delta3\<rfloor> 60
      in \<lparr>seconds = s, minutes = m, hours = h, days = d\<rparr>)"

text \<open>The returned object literal, with its three clamps.\<close>

definition clampTiming :: "Timing \<Rightarrow> Timing" where
  "clampTiming t =
     \<lparr>seconds = (if seconds t \<ge> 60 then 59 else seconds t),
      minutes = (if minutes t \<ge> 60 then 59 else minutes t),
      hours = (if hours t \<ge> 24 then 23 else hours t),
      days = days t\<rparr>"

definition getSecondsMinutesHoursFromMillis :: "real \<Rightarrow> Timing" where
  "getSecondsMinutesHoursFromMillis millis = clampTiming (rawTiming millis)"

text \<open>
  The decomposition as the specification words it: whole seconds first, then
  days = delta/86400, hours = remaining/3600 mod 24, minutes = remaining/60 mod 60,
  seconds = remainder mod 60, all on integers.
\<close>

definition specTimeDecomposition :: "real \<Rightarrow> Timing" where
  "specTimeDecomposition millis =
     (let whole = \<lfloor>millis / 1000\<rfloor>;
          d = whole div 86400;
          rem1 = whole - d * 86400;
          h = (rem1 div 3600) mod 24;
          rem2 = rem1 - h * 3600;
          m = (rem2 div 60) mod 60;
          rem3 = rem2 - m * 60;
          s = rem3 mod 60
      in \<lparr>seconds = s, minutes = m, hours = h, days = d\<rparr>)"

section \<open>Contribution index formatting (formatZkeyIndex)\<close>

text \<open>The constant \<open>firstZkeyIndex\<close> of the constants module.\<close>

definition firstZkeyIndex :: string where
  "firstZkeyIndex = ''00000''"

text \<open>
  \<open>progress.toString()\<close> for a non-negative integer (the number of completed
  contributions): its decimal digits, most significant first, no leading zero.
\<close>

definition digitChar :: "nat \<Rightarrow> char" where
  "digitChar d = ''0123456789'' ! d"

fun toStringNat :: "nat \<Rightarrow> string" where
  "toStringNat n = (if n < 10 then [digitChar n] else toStringNat (n div 10) @ [digitChar (n mod 10)])"

declare toStringNat.simps [simp del]

text \<open>The \<open>while\<close> loop: a zero is put in front as long as the string is shorter than \<open>firstZkeyIndex\<close>.\<close>

function padIndex :: "string \<Rightarrow> string" where
  "padIndex index = (if length index < length firstZkeyIndex then padIndex (CHR ''0'' # index) else index)"
  by pat_completeness auto
termination
  by (relation "measure (\<lambda>index. length firstZkeyIndex - length index)") auto

declare padIndex.simps [simp del]

definition formatZkeyIndex :: "nat \<Rightarrow> string" where
  "formatZkeyIndex progress = padIndex (toStringNat progress)"

section \<open>Data model, external calls and runs\<close>

text \<open>
  Modelled from the spec: the enum \<open>ParticipantContributionStep\<close> is declared in the types
  module, which is not among the sources. The members and their order are those of the
  specification's data model.
\<close>

datatype ContributionStep = NOT_STARTED | DOWNLOADING | COMPUTING | UPLOADING | VERIFYING | COMPLETED

text \<open>
  The position of a member in the enumeration, which is its value under TypeScript's default
  numbering. It decides the truthiness test \<open>!!contributionStep\<close> and the order
  "at-or-before" between steps.
\<close>

fun stepValue :: "ContributionStep \<Rightarrow> nat" where
  "stepValue NOT_STARTED = 0"
| "stepValue DOWNLOADING = 1"
| "stepValue COMPUTING = 2"
| "stepValue UPLOADING = 3"
| "stepValue VERIFYING = 4"
| "stepValue COMPLETED = 5"

record ETagWithPartNumber =
  ETag :: string
  PartNumber :: nat

record ChunkWithUrl =
  partNumber :: nat
  preSignedUrl :: string

text \<open>The temporary contribution data of the participant document; a field may be absent.\<close>

record TempContributionData =
  uploadId :: "string option"
  chunks :: "ETagWithPartNumber list"

record ParticipantData =
  contributionStep :: "ContributionStep option"
  tempContributionData :: "TempContributionData option"

record Ceremony =
  ceremonyId :: string
  ceremonyPrefix :: string

record Circuit =
  circuitId :: string
  circuitPrefix :: string
  completedContributions :: nat

record VerifyContributionComputation =
  valid :: bool
  verificationComputationTime :: real
  verifyCloudFunctionTime :: real
  fullContributionTime :: real

text \<open>
  The calls that leave the process: cloud functions, the storage transfer, the zKey engine.
  Optional arguments (\<open>ceremonyId\<close> of the upload, an absent contribution hash) are options.
\<close>

datatype Event =
    DownloadLocalFileFromBucket string string string
  | ProgressToNextContributionStep string
  | ZKeyContribute string string string string
  | ZKeyBeacon string string string string
  | PermanentlyStoreCurrentContributionTimeAndHash string real "string option"
  | StartMultiPartUpload string string "string option"
  | TemporaryStoreCurrentContributionMultiPartUploadId "string option" string
  | GeneratePreSignedUrlsParts string string string "nat list" "string option" "string option"
  | PutChunk nat string string
  | TemporaryStoreCurrentContributionUploadedChunkData "string option" ETagWithPartNumber
  | CompleteMultiPartUpload string string string "ETagWithPartNumber list" "string option"
  | VerifyContribution string string string string

datatype GenericError =
    GENERIC_NOT_CONFIGURED_PROPERLY
  | GENERIC_CONTRIBUTION_HASH_INVALID
  | GENERIC_ERROR_RETRIEVING_DATA

text \<open>
  A run ends early on a fatal \<open>showError\<close>, on an awaited call that rejects, or on reading
  a field of a missing response.
\<close>

datatype Error = Fatal GenericError | Rejected Event | UncaughtTypeError

record Paths =
  contributionTranscriptsPath :: string
  finalTranscriptsPath :: string
  contributionsPath :: string
  finalZkeysPath :: string

text \<open>
  Everything the functions read from outside: the \<open>paths\<close> constant and \<open>getBucketName\<close>
  (both declared outside the sources), the environment variable, which awaited calls
  reject, and what the successful ones return. \<open>recordedParts\<close> gives the part numbers
  that the checkpoint authority holds on record for an upload id.
\<close>

record World =
  paths :: Paths
  getBucketName :: "string \<Rightarrow> string"
  presignedUrlExpiration :: "string option"
  rejects :: "Event \<Rightarrow> bool"
  readFile :: "string \<Rightarrow> string"
  timerMs :: real
  mimeLookup :: "string \<Rightarrow> string"
  openedUploadId :: string
  numberOfParts :: "string \<Rightarrow> nat"
  recordedParts :: "string \<Rightarrow> nat list"
  urlOfPart :: "nat \<Rightarrow> string"
  etagOfPart :: "nat \<Rightarrow> string"
  verifyResponse :: "VerifyContributionComputation option"

type_synonym 'a Run = "Event list \<times> (Error + 'a)"

definition ret :: "'a \<Rightarrow> 'a Run" where
  "ret x = ([], Inr x)"

text \<open>Sequencing: an error ends the run, and the calls made so far stay in the trace.\<close>

definition andThen :: "'a Run \<Rightarrow> ('a \<Rightarrow> 'b Run) \<Rightarrow> 'b Run" where
  "andThen m f =
     (case m of
        (t, Inl e) \<Rightarrow> (t, Inl e)
      | (t, Inr x) \<Rightarrow> (case f x of (t', r) \<Rightarrow> (t @ t', r)))"

text \<open>An awaited external call: it is made, and it either resolves or rejects.\<close>

definition await :: "World \<Rightarrow> Event \<Rightarrow> unit Run" where
  "await w ev = ([ev], if rejects w ev then Inl (Rejected ev) else Inr ())"

text \<open>
  Modelled from the spec: \<open>showError\<close> of the errors module is not among the sources. The
  specification calls the conditions it reports fatal: with the exit flag set the run ends
  there with that error.
\<close>

definition showError :: "GenericError \<Rightarrow> bool \<Rightarrow> unit Run" where
  "showError err doExit = ([], if doExit then Inl (Fatal err) else Inr ())"

text \<open>JavaScript truthiness of an optional string and of an optional enum value.\<close>

definition truthyString :: "string option \<Rightarrow> bool" where
  "truthyString s = (case s of None \<Rightarrow> False | Some v \<Rightarrow> v \<noteq> [])"

definition truthyStep :: "ContributionStep option \<Rightarrow> bool" where
  "truthyStep s = (case s of None \<Rightarrow> False | Some v \<Rightarrow> stepValue v \<noteq> 0)"

section \<open>The contribution hash pattern\<close>

text \<open>
  The regular expression of makeContribution consists of literals and greedy \<open>.+\<close> only.
  The dot matches every character but a line terminator; characters are bytes here, so the
  terminators are line feed and carriage return.
\<close>

datatype RegexItem = Lit string | AnyPlus

definition isLineTerminator :: "char \<Rightarrow> bool" where
  "isLineTerminator c = (c = CHR 0x0A \<or> c = CHR 0x0D)"

fun firstSome :: "'a option list \<Rightarrow> 'a option" where
  "firstSome [] = None"
| "firstSome (None # xs) = firstSome xs"
| "firstSome (Some x # xs) = Some x"

text \<open>
  The length of the match that starts at the head of the string, found in the backtracking
  order of the engine: a greedy \<open>.+\<close> tries its longest extent first.
\<close>

fun matchAt :: "RegexItem list \<Rightarrow> string \<Rightarrow> nat option" where
  "matchAt [] s = Some 0"
| "matchAt (Lit l # r) s =
     (if take (length l) s = l
      then map_option (\<lambda>n. length l + n) (matchAt r (drop (length l) s))
      else None)"
| "matchAt (AnyPlus # r) s =
     firstSome (map (\<lambda>k. map_option (\<lambda>n. k + n) (matchAt r (drop k s)))
                    (rev [1..<Suc (length (takeWhile (\<lambda>c. \<not> isLineTerminator c) s))]))"

text \<open>\<open>String.prototype.match\<close> without the global flag: the text of the leftmost match.\<close>

fun regexMatch :: "RegexItem list \<Rightarrow> string \<Rightarrow> string option" where
  "regexMatch p [] = (case matchAt p [] of Some n \<Rightarrow> Some [] | None \<Rightarrow> None)"
| "regexMatch p (c # cs) =
     (case matchAt p (c # cs) of Some n \<Rightarrow> Some (take n (c # cs)) | None \<Rightarrow> regexMatch p cs)"

declare matchAt.simps [simp del] regexMatch.simps [simp del]

definition contributionHashPattern :: "RegexItem list" where
  "contributionHashPattern =
     [Lit ''Contribution'', AnyPlus, Lit ''Hash'', AnyPlus,
      Lit [CHR 0x0A, CHR 0x09, CHR 0x09], AnyPlus,
      Lit [CHR 0x0A, CHR 0x09, CHR 0x09], AnyPlus,
      Lit [CHR 0x0A], AnyPlus,
      Lit [CHR 0x0A, CHR 0x09, CHR 0x09], AnyPlus,
      Lit [CHR 0x0A]]"

text \<open>\<open>String.prototype.replace\<close> with a string pattern: the first occurrence only.\<close>

fun replaceFirst :: "string \<Rightarrow> string \<Rightarrow> string \<Rightarrow> string" where
  "replaceFirst pat rep [] = (if pat = [] then rep else [])"
| "replaceFirst pat rep (c # cs) =
     (if take (length pat) (c # cs) = pat then rep @ drop (length pat) (c # cs)
      else c # replaceFirst pat rep cs)"

text \<open>
  The text the pattern matches, spelled out: the word Contribution, some text, the word Hash
  and some more text on one line, then four further lines, the first, second and fourth after
  a line feed and two tabs, the third after a line feed, and a closing line feed. The text of
  a line is not empty and holds no line terminator. \<open>hashFingerprint\<close> is the same text
  with the first line feed and its two tabs left out.
\<close>

definition lineText :: "string \<Rightarrow> bool" where
  "lineText s = (s \<noteq> [] \<and> (\<forall>c\<in>set s. \<not> isLineTerminator c))"

definition hashBlock :: "string \<Rightarrow> string \<Rightarrow> string \<Rightarrow> string \<Rightarrow> string \<Rightarrow> string \<Rightarrow> string" where
  "hashBlock a b l1 l2 l3 l4 =
     ''Contribution'' @ a @ ''Hash'' @ b @ [CHR 0x0A, CHR 0x09, CHR 0x09] @ l1
     @ [CHR 0x0A, CHR 0x09, CHR 0x09] @ l2 @ [CHR 0x0A] @ l3
     @ [CHR 0x0A, CHR 0x09, CHR 0x09] @ l4 @ [CHR 0x0A]"

definition hashFingerprint :: "string \<Rightarrow> string \<Rightarrow> string \<Rightarrow> string \<Rightarrow> string \<Rightarrow> string \<Rightarrow> string" where
  "hashFingerprint a b l1 l2 l3 l4 =
     ''Contribution'' @ a @ ''Hash'' @ b @ l1
     @ [CHR 0x0A, CHR 0x09, CHR 0x09] @ l2 @ [CHR 0x0A] @ l3
     @ [CHR 0x0A, CHR 0x09, CHR 0x09] @ l4 @ [CHR 0x0A]"

text \<open>A string that begins with such a block.\<close>

definition startsHashBlock :: "string \<Rightarrow> bool" where
  "startsHashBlock s =
     (\<exists>a b l1 l2 l3 l4 rest. lineText a \<and> lineText b \<and> lineText l1 \<and> lineText l2
        \<and> lineText l3 \<and> lineText l4 \<and> s = hashBlock a b l1 l2 l3 l4 @ rest)"

section \<open>Chunked upload (multiPartUpload)\<close>

text \<open>
  Modelled from the spec: \<open>openMultiPartUpload\<close>, \<open>getChunksAndPreSignedUrls\<close>,
  \<open>uploadParts\<close> and \<open>closeMultiPartUpload\<close> belong to the storage module, which is not
  among the sources. Their arguments are those multiPartUpload passes; what they do follows
  the specification's upload algorithm and external interfaces.
\<close>

text \<open>Modelled from the spec: open a transfer session, obtaining an opaque upload id.\<close>

definition openMultiPartUpload :: "World \<Rightarrow> string \<Rightarrow> string \<Rightarrow> string option \<Rightarrow> string Run" where
  "openMultiPartUpload w bucketName objectKey cerId =
     andThen (await w (StartMultiPartUpload bucketName objectKey cerId))
             (\<lambda>_. ret (openedUploadId w))"

text \<open>
  Modelled from the spec: the part count comes from the file, the parts are numbered
  1..N, and one transfer authorization is requested per part not already recorded in the
  existing session. multiPartUpload hands this call the upload id and not the session, so
  the recorded parts are those the checkpoint authority holds for that upload id.
  \<open>partsToAuthorize\<close> lists the parts still to be authorized.
\<close>

definition partsToAuthorize :: "World \<Rightarrow> string \<Rightarrow> string \<Rightarrow> nat list" where
  "partsToAuthorize w localPath upId =
     filter (\<lambda>i. i \<notin> set (recordedParts w upId)) [1..<Suc (numberOfParts w localPath)]"

text \<open>Modelled from the spec: an authorization gives a part its number and its destination.\<close>

definition chunksOf :: "World \<Rightarrow> nat list \<Rightarrow> ChunkWithUrl list" where
  "chunksOf w parts = map (\<lambda>i. \<lparr>partNumber = i, preSignedUrl = urlOfPart w i\<rparr>) parts"

text \<open>
  Modelled from the spec: the authorizations are requested in one call that names the parts
  still to be authorized; with every part recorded nothing is requested.
\<close>

definition getChunksAndPreSignedUrls ::
  "World \<Rightarrow> string \<Rightarrow> string \<Rightarrow> string \<Rightarrow> string \<Rightarrow> string option \<Rightarrow> string option
   \<Rightarrow> ChunkWithUrl list Run" where
  "getChunksAndPreSignedUrls w bucketName objectKey localPath upId expiration cerId =
     (let parts = partsToAuthorize w localPath upId
      in if parts = [] then ret []
         else andThen (await w (GeneratePreSignedUrlsParts bucketName objectKey upId parts expiration cerId))
                      (\<lambda>_. ret (chunksOf w parts)))"

text \<open>
  Modelled from the spec: each authorized part is transmitted with the content type and,
  on success, recorded as (part number, completion token) through the chunk-store callable
  when one is supplied; a part that is already recorded is skipped. \<open>recordOf\<close> is the
  record of a transmitted part, with the completion token the transfer returned.
\<close>

definition recordOf :: "World \<Rightarrow> ChunkWithUrl \<Rightarrow> ETagWithPartNumber" where
  "recordOf w c = \<lparr>ETag = etagOfPart w (partNumber c), PartNumber = partNumber c\<rparr>"

fun uploadParts ::
  "World \<Rightarrow> ChunkWithUrl list \<Rightarrow> string \<Rightarrow> bool \<Rightarrow> string option \<Rightarrow> ETagWithPartNumber list
   \<Rightarrow> ETagWithPartNumber list Run" where
  "uploadParts w [] contentType storeChunkCF cerId uploaded = ret uploaded"
| "uploadParts w (c # cs) contentType storeChunkCF cerId uploaded =
     (if partNumber c \<in> set (map PartNumber uploaded)
      then uploadParts w cs contentType storeChunkCF cerId uploaded
      else andThen (await w (PutChunk (partNumber c) (preSignedUrl c) contentType))
        (\<lambda>_. andThen
           (if storeChunkCF
            then await w (TemporaryStoreCurrentContributionUploadedChunkData cerId (recordOf w c))
            else ret ())
        (\<lambda>_. uploadParts w cs contentType storeChunkCF cerId (uploaded @ [recordOf w c]))))"

text \<open>
  Modelled from the spec: the finalize operation of the remote authority is invoked with the
  upload id and the list of recorded parts, as that list is handed over.
\<close>

definition closeMultiPartUpload ::
  "World \<Rightarrow> string \<Rightarrow> string \<Rightarrow> string \<Rightarrow> ETagWithPartNumber list \<Rightarrow> string option \<Rightarrow> unit Run" where
  "closeMultiPartUpload w bucketName objectKey upId parts cerId =
     await w (CompleteMultiPartUpload bucketName objectKey upId parts cerId)"

text \<open>
  The condition \<open>!tempContributionData || (!!tempContributionData && !tempContributionData.uploadId)\<close>
  under which the upload cannot be resumed.
\<close>

definition startsFromScratch :: "TempContributionData option \<Rightarrow> bool" where
  "startsFromScratch tempData =
     (case tempData of None \<Rightarrow> True | Some temp \<Rightarrow> \<not> truthyString (uploadId temp))"

text \<open>
  multiPartUpload. The three mandatory callables are always there and are not arguments of
  the model; the two optional ones are flags telling whether they were supplied.
\<close>

definition multiPartUpload ::
  "World \<Rightarrow> string \<Rightarrow> string \<Rightarrow> string \<Rightarrow> bool \<Rightarrow> bool \<Rightarrow> string option
   \<Rightarrow> TempContributionData option \<Rightarrow> unit Run" where
  "multiPartUpload w bucketName objectKey localPath storeUploadIdCF storeChunkCF cerId tempData =
     andThen (if \<not> truthyString (presignedUrlExpiration w)
              then showError GENERIC_NOT_CONFIGURED_PROPERLY True else ret ())
     (\<lambda>_. let contentType = mimeLookup w localPath in
       andThen
         (if startsFromScratch tempData
          then andThen (openMultiPartUpload w bucketName objectKey cerId)
            (\<lambda>newId. andThen
               (if storeUploadIdCF
                then await w (TemporaryStoreCurrentContributionMultiPartUploadId cerId newId)
                else ret ())
            (\<lambda>_. ret (newId, [])))
          else ret (case tempData of
                      None \<Rightarrow> ([], [])
                    | Some temp \<Rightarrow> (case uploadId temp of None \<Rightarrow> [] | Some u \<Rightarrow> u, chunks temp)))
       (\<lambda>(uploadIdZkey, alreadyUploadedChunks).
          andThen (getChunksAndPreSignedUrls w bucketName objectKey localPath uploadIdZkey
                     (presignedUrlExpiration w) cerId)
          (\<lambda>chunksWithUrlsZkey.
             andThen (uploadParts w chunksWithUrlsZkey contentType storeChunkCF cerId alreadyUploadedChunks)
             (\<lambda>partNumbersAndETagsZkey.
                closeMultiPartUpload w bucketName objectKey uploadIdZkey partNumbersAndETagsZkey cerId))))"

section \<open>The contribution run (makeContribution)\<close>

text \<open>
  computeContribution: after preparing its spinner it awaits the beacon when finalizing and
  the contribution otherwise.
\<close>

definition computeContribution ::
  "World \<Rightarrow> string \<Rightarrow> string \<Rightarrow> string \<Rightarrow> string \<Rightarrow> bool \<Rightarrow> unit Run" where
  "computeContribution w lastZkey newZkey name entropyOrBeacon finalize =
     (if finalize then await w (ZKeyBeacon lastZkey newZkey name entropyOrBeacon)
      else await w (ZKeyContribute lastZkey newZkey name entropyOrBeacon))"

text \<open>makeContributionStepProgress: the request carries the ceremony id only; the message is spinner text.\<close>

definition makeContributionStepProgress :: "World \<Rightarrow> string \<Rightarrow> bool \<Rightarrow> string \<Rightarrow> unit Run" where
  "makeContributionStepProgress w cerId showSpinner message =
     await w (ProgressToNextContributionStep cerId)"

definition downloadContribution :: "World \<Rightarrow> string \<Rightarrow> string \<Rightarrow> string \<Rightarrow> bool \<Rightarrow> unit Run" where
  "downloadContribution w bucketName objectKey localPath showSpinner =
     await w (DownloadLocalFileFromBucket bucketName objectKey localPath)"

definition computeVerification ::
  "World \<Rightarrow> Ceremony \<Rightarrow> Circuit \<Rightarrow> string \<Rightarrow> VerifyContributionComputation Run" where
  "computeVerification w ceremony circuit ghUsername =
     andThen (await w (VerifyContribution (ceremonyId ceremony) (circuitId circuit) ghUsername
                         (getBucketName w (ceremonyPrefix ceremony))))
       (\<lambda>_. case verifyResponse w of
               None \<Rightarrow> andThen (showError GENERIC_ERROR_RETRIEVING_DATA True)
                               (\<lambda>_. ([], Inl UncaughtTypeError))
             | Some data \<Rightarrow> ret data)"

text \<open>The optional chains \<open>newParticipantData?.contributionStep\<close> and \<open>newParticipantData?.tempContributionData\<close>.\<close>

definition contributionStepOf :: "ParticipantData option \<Rightarrow> ContributionStep option" where
  "contributionStepOf newParticipantData =
     (case newParticipantData of None \<Rightarrow> None | Some d \<Rightarrow> contributionStep d)"

definition tempContributionDataOf :: "ParticipantData option \<Rightarrow> TempContributionData option" where
  "tempContributionDataOf newParticipantData =
     (case newParticipantData of None \<Rightarrow> None | Some d \<Rightarrow> tempContributionData d)"

text \<open>
  The bodies of the four conditional blocks of makeContribution, in source order. The
  storage path is built from the collection names \<open>circuits\<close> and \<open>contributions\<close> of the
  constants module.
\<close>

definition downloadBlock :: "World \<Rightarrow> Ceremony \<Rightarrow> Circuit \<Rightarrow> bool \<Rightarrow> unit Run" where
  "downloadBlock w ceremony circuit finalize =
     (let currentZkeyIndex = formatZkeyIndex (completedContributions circuit);
          contributionsPath' = (if finalize then finalZkeysPath (paths w) else contributionsPath (paths w));
          bucketName = getBucketName w (ceremonyPrefix ceremony);
          storagePath = ''circuits/'' @ circuitPrefix circuit @ ''/contributions/''
                        @ circuitPrefix circuit @ ''_'' @ currentZkeyIndex @ ''.zkey'';
          localPath = contributionsPath' @ ''/'' @ circuitPrefix circuit @ ''_'' @ currentZkeyIndex @ ''.zkey''
      in andThen (downloadContribution w bucketName storagePath localPath False)
           (\<lambda>_. if \<not> finalize
                 then makeContributionStepProgress w (ceremonyId ceremony) True ''computation''
                 else ret ()))"

text \<open>The local path of the transcript, as makeContribution builds it before the first block.\<close>

definition contributionTranscriptLocalPath :: "World \<Rightarrow> Circuit \<Rightarrow> string \<Rightarrow> bool \<Rightarrow> string" where
  "contributionTranscriptLocalPath w circuit ghUsername finalize =
     (if finalize then finalTranscriptsPath (paths w) else contributionTranscriptsPath (paths w))
     @ ''/'' @ circuitPrefix circuit @ ''_''
     @ (if finalize then ghUsername @ ''_final''
        else formatZkeyIndex (completedContributions circuit + 1)) @ ''.log''"

definition computeBlock :: "World \<Rightarrow> Ceremony \<Rightarrow> Circuit \<Rightarrow> string \<Rightarrow> string \<Rightarrow> bool \<Rightarrow> unit Run" where
  "computeBlock w ceremony circuit entropyOrBeacon ghUsername finalize =
     (let currentZkeyIndex = formatZkeyIndex (completedContributions circuit);
          nextZkeyIndex = formatZkeyIndex (completedContributions circuit + 1);
          contributionsPath' = (if finalize then finalZkeysPath (paths w) else contributionsPath (paths w))
      in andThen
           (computeContribution w
              (contributionsPath' @ ''/'' @ circuitPrefix circuit @ ''_'' @ currentZkeyIndex @ ''.zkey'')
              (contributionsPath' @ ''/'' @ circuitPrefix circuit @ ''_''
                 @ (if finalize then ''final'' else nextZkeyIndex) @ ''.zkey'')
              ghUsername entropyOrBeacon finalize)
           (\<lambda>_. let contributionComputationTime = timerMs w;
                     transcript = readFile w (contributionTranscriptLocalPath w circuit ghUsername finalize);
                     matchContributionHash = regexMatch contributionHashPattern transcript
                 in andThen
                      (if matchContributionHash = None
                       then showError GENERIC_CONTRIBUTION_HASH_INVALID True else ret ())
                      (\<lambda>_. let contributionHash =
                                  map_option (replaceFirst [CHR 0x0A, CHR 0x09, CHR 0x09] [])
                                             matchContributionHash
                            in andThen
                                 (await w (PermanentlyStoreCurrentContributionTimeAndHash
                                             (ceremonyId ceremony) contributionComputationTime contributionHash))
                                 (\<lambda>_. if \<not> finalize
                                       then makeContributionStepProgress w (ceremonyId ceremony) True ''upload''
                                       else ret ()))))"

definition uploadBlock ::
  "World \<Rightarrow> Ceremony \<Rightarrow> Circuit \<Rightarrow> bool \<Rightarrow> ParticipantData option \<Rightarrow> unit Run" where
  "uploadBlock w ceremony circuit finalize newParticipantData =
     (let nextZkeyIndex = formatZkeyIndex (completedContributions circuit + 1);
          contributionsPath' = (if finalize then finalZkeysPath (paths w) else contributionsPath (paths w));
          bucketName = getBucketName w (ceremonyPrefix ceremony);
          storagePath = ''circuits/'' @ circuitPrefix circuit @ ''/contributions/''
                        @ circuitPrefix circuit @ ''_''
                        @ (if finalize then ''final'' else nextZkeyIndex) @ ''.zkey'';
          localPath = contributionsPath' @ ''/'' @ circuitPrefix circuit @ ''_''
                      @ (if finalize then ''final'' else nextZkeyIndex) @ ''.zkey''
      in andThen
           (if \<not> finalize
            then multiPartUpload w bucketName storagePath localPath True True
                   (Some (ceremonyId ceremony))
                   (tempContributionDataOf newParticipantData)
            else multiPartUpload w bucketName storagePath localPath False False None None)
           (\<lambda>_. if \<not> finalize
                 then makeContributionStepProgress w (ceremonyId ceremony) True ''verification''
                 else ret ()))"

definition verifyBlock :: "World \<Rightarrow> Ceremony \<Rightarrow> Circuit \<Rightarrow> string \<Rightarrow> unit Run" where
  "verifyBlock w ceremony circuit ghUsername =
     andThen (computeVerification w ceremony circuit ghUsername) (\<lambda>_. ret ())"

text \<open>
  makeContribution: four blocks, each behind its own condition on \<open>finalize\<close> and on
  \<open>newParticipantData?.contributionStep\<close>. Console output, spinners, the pauses and the
  first line written to the transcript logger are left out; the transcript read back after
  the computation is what the environment's \<open>readFile\<close> returns.
\<close>

definition makeContribution ::
  "World \<Rightarrow> Ceremony \<Rightarrow> Circuit \<Rightarrow> string \<Rightarrow> string \<Rightarrow> bool \<Rightarrow> ParticipantData option \<Rightarrow> unit Run" where
  "makeContribution w ceremony circuit entropyOrBeacon ghUsername finalize newParticipantData =
     (let step = contributionStepOf newParticipantData
      in andThen
           (if finalize \<or> (truthyStep step \<and> step = Some DOWNLOADING)
            then downloadBlock w ceremony circuit finalize else ret ())
         (\<lambda>_. andThen
           (if finalize \<or> (truthyStep step \<and> step = Some DOWNLOADING) \<or> step = Some COMPUTING
            then computeBlock w ceremony circuit entropyOrBeacon ghUsername finalize else ret ())
         (\<lambda>_. andThen
           (if finalize \<or> (truthyStep step \<and> step = Some DOWNLOADING) \<or> step = Some COMPUTING
               \<or> step = Some UPLOADING
            then uploadBlock w ceremony circuit finalize newParticipantData else ret ())
         (\<lambda>_.
           if finalize \<or> (truthyStep step \<and> step = Some DOWNLOADING) \<or> step = Some COMPUTING
              \<or> step = Some UPLOADING \<or> step = Some VERIFYING
           then verifyBlock w ceremony circuit ghUsername else ret ()))))"

section \<open>Reading a trace\<close>

text \<open>The step a call belongs to; a progress request belongs to none.\<close>

fun eventStep :: "Event \<Rightarrow> ContributionStep option" where
  "eventStep (DownloadLocalFileFromBucket _ _ _) = Some DOWNLOADING"
| "eventStep (ProgressToNextContributionStep _) = None"
| "eventStep (ZKeyContribute _ _ _ _) = Some COMPUTING"
| "eventStep (ZKeyBeacon _ _ _ _) = Some COMPUTING"
| "eventStep (PermanentlyStoreCurrentContributionTimeAndHash _ _ _) = Some COMPUTING"
| "eventStep (StartMultiPartUpload _ _ _) = Some UPLOADING"
| "eventStep (TemporaryStoreCurrentContributionMultiPartUploadId _ _) = Some UPLOADING"
| "eventStep (GeneratePreSignedUrlsParts _ _ _ _ _ _) = Some UPLOADING"
| "eventStep (PutChunk _ _ _) = Some UPLOADING"
| "eventStep (TemporaryStoreCurrentContributionUploadedChunkData _ _) = Some UPLOADING"
| "eventStep (CompleteMultiPartUpload _ _ _ _ _) = Some UPLOADING"
| "eventStep (VerifyContribution _ _ _ _) = Some VERIFYING"

fun isProgressRequest :: "Event \<Rightarrow> bool" where
  "isProgressRequest (ProgressToNextContributionStep _) = True"
| "isProgressRequest _ = False"

fun isStartUpload :: "Event \<Rightarrow> bool" where
  "isStartUpload (StartMultiPartUpload _ _ _) = True"
| "isStartUpload _ = False"

fun isStoreUploadId :: "Event \<Rightarrow> bool" where
  "isStoreUploadId (TemporaryStoreCurrentContributionMultiPartUploadId _ _) = True"
| "isStoreUploadId _ = False"

text \<open>The parts a call requests transfer authorizations for.\<close>

fun partsAuthorized :: "Event \<Rightarrow> nat list" where
  "partsAuthorized (GeneratePreSignedUrlsParts _ _ _ parts _ _) = parts"
| "partsAuthorized _ = []"

fun isPutChunk :: "Event \<Rightarrow> bool" where
  "isPutChunk (PutChunk _ _ _) = True"
| "isPutChunk _ = False"

fun isStoreHash :: "Event \<Rightarrow> bool" where
  "isStoreHash (PermanentlyStoreCurrentContributionTimeAndHash _ _ _) = True"
| "isStoreHash _ = False"

text \<open>
  The session the checkpoint authority holds after a trace: the records it held before,
  followed by those of the chunk-store calls that resolved.
\<close>

fun chunkRecordOf :: "Event \<Rightarrow> ETagWithPartNumber list" where
  "chunkRecordOf (TemporaryStoreCurrentContributionUploadedChunkData _ r) = [r]"
| "chunkRecordOf _ = []"

definition sessionAfter :: "World \<Rightarrow> ETagWithPartNumber list \<Rightarrow> Event list \<Rightarrow> ETagWithPartNumber list" where
  "sessionAfter w held t = held @ concat (map chunkRecordOf (filter (\<lambda>e. \<not> rejects w e) t))"

definition isDownloadOrCompute :: "Event \<Rightarrow> bool" where
  "isDownloadOrCompute e = (eventStep e = Some DOWNLOADING \<or> eventStep e = Some COMPUTING)"

text \<open>The steps a trace goes through, in order, and the same with the progress requests in between.\<close>

definition stepsExecuted :: "Event list \<Rightarrow> ContributionStep list" where
  "stepsExecuted t = remdups_adj (List.map_filter eventStep t)"

definition milestones :: "Event list \<Rightarrow> ContributionStep option list" where
  "milestones t = remdups_adj (map eventStep t)"

definition atOrBefore :: "ContributionStep \<Rightarrow> ContributionStep \<Rightarrow> bool" where
  "atOrBefore s t = (stepValue s \<le> stepValue t)"

text \<open>
  The condition under which step \<open>t\<close> runs: finalize is set, or the checkpoint's step is
  DOWNLOADING or later and at-or-before \<open>t\<close>.
\<close>

definition stepGate :: "bool \<Rightarrow> ContributionStep option \<Rightarrow> ContributionStep \<Rightarrow> bool" where
  "stepGate finalize step t =
     (finalize \<or> (case step of None \<Rightarrow> False | Some s \<Rightarrow> atOrBefore DOWNLOADING s \<and> atOrBefore s t))"

text \<open>The call computeContribution awaits, with the paths makeContribution passes.\<close>

definition zkeyCall :: "World \<Rightarrow> Circuit \<Rightarrow> string \<Rightarrow> string \<Rightarrow> bool \<Rightarrow> Event" where
  "zkeyCall w circuit entropyOrBeacon ghUsername finalize =
     (if finalize
      then ZKeyBeacon
             (finalZkeysPath (paths w) @ ''/'' @ circuitPrefix circuit @ ''_''
                @ formatZkeyIndex (completedContributions circuit) @ ''.zkey'')
             (finalZkeysPath (paths w) @ ''/'' @ circuitPrefix circuit @ ''_final.zkey'')
             ghUsername entropyOrBeacon
      else ZKeyContribute
             (contributionsPath (paths w) @ ''/'' @ circuitPrefix circuit @ ''_''
                @ formatZkeyIndex (completedContributions circuit) @ ''.zkey'')
             (contributionsPath (paths w) @ ''/'' @ circuitPrefix circuit @ ''_''
                @ formatZkeyIndex (completedContributions circuit + 1) @ ''.zkey'')
             ghUsername entropyOrBeacon)"

text \<open>
  Modelled from the spec: the checkpoint authority is outside the sources. On a progress
  request it advances the stored step to the following one; \<open>checkpointHistory s t\<close> lists
  the steps the checkpoint takes on while the trace \<open>t\<close> runs from the stored step \<open>s\<close>.
\<close>

fun nextStep :: "ContributionStep \<Rightarrow> ContributionStep" where
  "nextStep NOT_STARTED = DOWNLOADING"
| "nextStep DOWNLOADING = COMPUTING"
| "nextStep COMPUTING = UPLOADING"
| "nextStep UPLOADING = VERIFYING"
| "nextStep VERIFYING = COMPLETED"
| "nextStep COMPLETED = COMPLETED"

fun checkpointHistory :: "ContributionStep \<Rightarrow> Event list \<Rightarrow> ContributionStep list" where
  "checkpointHistory s [] = []"
| "checkpointHistory s (ProgressToNextContributionStep c # t) = nextStep s # checkpointHistory (nextStep s) t"
| "checkpointHistory s (e # t) = checkpointHistory s t"

section \<open>Concrete inputs\<close>

text \<open>A transcript with a contribution hash block, and an environment in which every call resolves.\<close>

definition sampleTranscript :: string where
  "sampleTranscript =
     ''Contribution #1 Hash: '' @ [CHR 0x0A, CHR 0x09, CHR 0x09] @ ''aaaa''
     @ [CHR 0x0A, CHR 0x09, CHR 0x09] @ ''bbbb'' @ [CHR 0x0A] @ ''cccc''
     @ [CHR 0x0A, CHR 0x09, CHR 0x09] @ ''dddd'' @ [CHR 0x0A]"

definition sampleWorld :: World where
  "sampleWorld =
     \<lparr>paths = \<lparr>contributionTranscriptsPath = ''transcripts'', finalTranscriptsPath = ''finalTranscripts'',
               contributionsPath = ''contributions'', finalZkeysPath = ''finalZkeys''\<rparr>,
      getBucketName = (\<lambda>prefix. prefix @ ''-bucket''),
      presignedUrlExpiration = Some ''7200'',
      rejects = (\<lambda>_. False),
      readFile = (\<lambda>_. sampleTranscript),
      timerMs = 1000,
      mimeLookup = (\<lambda>_. ''application/octet-stream''),
      openedUploadId = ''upload-1'',
      numberOfParts = (\<lambda>_. 2),
      recordedParts = (\<lambda>u. if u = ''upload-0'' then [1] else []),
      urlOfPart = (\<lambda>i. ''url-'' @ toStringNat i),
      etagOfPart = (\<lambda>i. ''etag-'' @ toStringNat i),
      verifyResponse = Some \<lparr>valid = True, verificationComputationTime = 10,
                             verifyCloudFunctionTime = 20, fullContributionTime = 30\<rparr>\<rparr>"

text \<open>A persisted session with part 1 of 2 recorded, as the environment above holds it.\<close>

definition sampleSession :: TempContributionData where
  "sampleSession = \<lparr>uploadId = Some ''upload-0'', chunks = [\<lparr>ETag = ''etag-old-1'', PartNumber = 1\<rparr>]\<rparr>"

text \<open>A transcript with text before and after the contribution hash block.\<close>

definition sampleLog :: string where
  "sampleLog =
     ''Contribution 4 started'' @ [CHR 0x0A] @ ''snarkJS: ''
     @ hashBlock '' #1 '' '': '' ''aaaa'' ''bbbb'' ''cccc'' ''dddd''
     @ ''snarkJS: done''"

definition logWorld :: World where
  "logWorld = sampleWorld\<lparr>readFile := (\<lambda>_. sampleLog)\<rparr>"

definition noHashWorld :: World where
  "noHashWorld = sampleWorld\<lparr>readFile := (\<lambda>_. ''Contribution without a hash'')\<rparr>"

definition sampleCeremony :: Ceremony where
  "sampleCeremony = \<lparr>ceremonyId = ''cer-1'', ceremonyPrefix = ''cer''\<rparr>"

definition sampleCircuit :: Circuit where
  "sampleCircuit = \<lparr>circuitId = ''circ-1'', circuitPrefix = ''circ'', completedContributions = 3\<rparr>"

definition sampleFresh :: ParticipantData where
  "sampleFresh = \<lparr>contributionStep = Some DOWNLOADING, tempContributionData = None\<rparr>"

definition sampleResumed :: ParticipantData where
  "sampleResumed = \<lparr>contributionStep = Some UPLOADING, tempContributionData = Some sampleSession\<rparr>"

definition sampleNotStarted :: ParticipantData where
  "sampleNotStarted = \<lparr>contributionStep = Some NOT_STARTED, tempContributionData = None\<rparr>"

section \<open>Properties of the time decomposition\<close>

lemma jsRem_nonneg: "0 \<le> a \<Longrightarrow> jsRem a b = a mod \<bar>b\<bar>"
  by (cases "a = 0") (simp_all add: jsRem_def sgn_if)

lemma jsRem_less:
  assumes "0 < b" shows "jsRem a b < b"
proof -
  have m: "0 \<le> \<bar>a\<bar> mod \<bar>b\<bar>" "\<bar>a\<bar> mod \<bar>b\<bar> < b" using assms by simp_all
  show ?thesis
  proof (cases "0 \<le> a")
    case True
    then show ?thesis using m by (cases "a = 0") (simp_all add: jsRem_def sgn_if)
  next
    case False
    then have "jsRem a b = - (\<bar>a\<bar> mod \<bar>b\<bar>)" by (simp add: jsRem_def sgn_if)
    then show ?thesis using m assms by linarith
  qed
qed

lemma floor_div_int: "0 < n \<Longrightarrow> \<lfloor>x / real_of_int n\<rfloor> = \<lfloor>x\<rfloor> div n"
  by (simp add: floor_divide_real_eq_div)

lemma rawTiming_eq_spec: "rawTiming millis = specTimeDecomposition millis"
proof -
  define w where "w = \<lfloor>millis / 1000\<rfloor>"
  define d where "d = w div 86400"
  define r1 where "r1 = w - d * 86400"
  define h where "h = (r1 div 3600) mod 24"
  define r2 where "r2 = r1 - h * 3600"
  define m where "m = (r2 div 60) mod 60"
  define r3 where "r3 = r2 - m * 60"
  have r1_mod: "r1 = w mod 86400" unfolding r1_def d_def by (simp add: minus_div_mult_eq_mod)
  have r1b: "0 \<le> r1" "r1 < 86400" unfolding r1_mod by simp_all
  have q1: "0 \<le> r1 div 3600" "r1 div 3600 < 24" using r1b by (simp_all add: div_less_iff_less_mult pos_imp_zdiv_nonneg_iff)
  have h_eq: "h = r1 div 3600" unfolding h_def using q1 by simp
  have r2_mod: "r2 = r1 mod 3600" unfolding r2_def h_eq by (simp add: minus_div_mult_eq_mod)
  have r2b: "0 \<le> r2" "r2 < 3600" unfolding r2_mod by simp_all
  have q2: "0 \<le> r2 div 60" "r2 div 60 < 60" using r2b by (simp_all add: div_less_iff_less_mult pos_imp_zdiv_nonneg_iff)
  have m_eq: "m = r2 div 60" unfolding m_def using q2 by simp
  have r3_mod: "r3 = r2 mod 60" unfolding r3_def m_eq by (simp add: minus_div_mult_eq_mod)
  have r3b: "0 \<le> r3" "r3 < 60" unfolding r3_mod by simp_all
  have fd: "\<lfloor>millis / 1000 / 86400\<rfloor> = d"
    using floor_div_int [of 86400 "millis / 1000"] by (simp add: d_def w_def)
  have s1: "\<lfloor>millis / 1000 - real_of_int d * 86400\<rfloor> = r1"
    using floor_diff_of_int [of "millis / 1000" "d * 86400"] by (simp add: r1_def w_def)
  have s2: "\<lfloor>millis / 1000 - real_of_int d * 86400 - real_of_int h * 3600\<rfloor> = r2"
    using floor_diff_of_int [of "millis / 1000 - real_of_int d * 86400" "h * 3600"] s1 by (simp add: r2_def)
  have f1: "\<lfloor>(millis / 1000 - real_of_int d * 86400) / 3600\<rfloor> = r1 div 3600"
    using floor_div_int [of 3600 "millis / 1000 - real_of_int d * 86400"]
    using s1 by simp
  have jh: "jsRem (r1 div 3600) 24 = h" using q1 by (simp add: jsRem_nonneg h_def)
  have f2: "\<lfloor>(millis / 1000 - real_of_int d * 86400 - real_of_int h * 3600) / 60\<rfloor> = r2 div 60"
    using floor_div_int [of 60 "millis / 1000 - real_of_int d * 86400 - real_of_int h * 3600"]
    using s2 by simp
  have jm: "jsRem (r2 div 60) 60 = m" using q2 by (simp add: jsRem_nonneg m_def)
  have f3: "\<lfloor>millis / 1000 - real_of_int d * 86400 - real_of_int h * 3600 - real_of_int m * 60\<rfloor> = r3"
    using floor_diff_of_int [of "millis / 1000 - real_of_int d * 86400 - real_of_int h * 3600" "m * 60"] s2
    by (simp add: r3_def)
  have js: "jsRem r3 60 = r3 mod 60" using r3b by (simp add: jsRem_nonneg)
  have L: "rawTiming millis = \<lparr>seconds = r3 mod 60, minutes = m, hours = h, days = d\<rparr>"
    unfolding rawTiming_def Let_def fd f1 jh f2 jm f3 js ..
  have R: "specTimeDecomposition millis = \<lparr>seconds = r3 mod 60, minutes = m, hours = h, days = d\<rparr>"
    unfolding specTimeDecomposition_def Let_def w_def [symmetric] d_def [symmetric] r1_def [symmetric]
      h_def [symmetric] r2_def [symmetric] m_def [symmetric] r3_def [symmetric] ..
  show ?thesis using L R by simp
qed

lemma clampTiming_rawTiming: "clampTiming (rawTiming millis) = rawTiming millis"
proof -
  have "seconds (rawTiming millis) < 60" "minutes (rawTiming millis) < 60" "hours (rawTiming millis) < 24"
    by (simp_all add: rawTiming_def Let_def jsRem_less)
  then show ?thesis by (simp add: clampTiming_def)
qed

lemma specTimeDecomposition_closed:
  "specTimeDecomposition millis =
     \<lparr>seconds = \<lfloor>millis / 1000\<rfloor> mod 86400 mod 3600 mod 60,
      minutes = \<lfloor>millis / 1000\<rfloor> mod 86400 mod 3600 div 60,
      hours = \<lfloor>millis / 1000\<rfloor> mod 86400 div 3600,
      days = \<lfloor>millis / 1000\<rfloor> div 86400\<rparr>"
proof -
  define w where "w = \<lfloor>millis / 1000\<rfloor>"
  define r1 where "r1 = w mod 86400"
  define r2 where "r2 = r1 mod 3600"
  have r1_eq: "w - w div 86400 * 86400 = r1" by (simp add: r1_def minus_div_mult_eq_mod)
  have r1b: "0 \<le> r1" "r1 < 86400" unfolding r1_def by simp_all
  have q1: "0 \<le> r1 div 3600" "r1 div 3600 < 24"
    using r1b by (simp_all add: div_less_iff_less_mult pos_imp_zdiv_nonneg_iff)
  have h_eq: "r1 div 3600 mod 24 = r1 div 3600" using q1 by simp
  have r2_eq: "r1 - r1 div 3600 * 3600 = r2" by (simp add: r2_def minus_div_mult_eq_mod)
  have r2b: "0 \<le> r2" "r2 < 3600" unfolding r2_def by simp_all
  have q2: "0 \<le> r2 div 60" "r2 div 60 < 60"
    using r2b by (simp_all add: div_less_iff_less_mult pos_imp_zdiv_nonneg_iff)
  have m_eq: "r2 div 60 mod 60 = r2 div 60" using q2 by simp
  have r3_eq: "(r2 - r2 div 60 * 60) mod 60 = r2 mod 60" by (simp add: minus_div_mult_eq_mod)
  show ?thesis
    unfolding specTimeDecomposition_def Let_def w_def [symmetric] r1_eq h_eq r2_eq m_eq r3_eq
    unfolding r2_def r1_def ..
qed

lemma getSecondsMinutesHoursFromMillis_eq_spec:
  "getSecondsMinutesHoursFromMillis millis = specTimeDecomposition millis"
  unfolding getSecondsMinutesHoursFromMillis_def clampTiming_rawTiming by (rule rawTiming_eq_spec)

text \<open>
  C7. For every non-negative millisecond input the three clamp branches are unreachable:
  before clamping the seconds value is below 60, the minutes value below 60 and the hours
  value below 24, so the returned object equals the unclamped one.
\<close>

theorem C7_clamp_unreachable:
  assumes "0 \<le> millis"
  shows "seconds (rawTiming millis) < 60 \<and> minutes (rawTiming millis) < 60
         \<and> hours (rawTiming millis) < 24
         \<and> getSecondsMinutesHoursFromMillis millis = rawTiming millis"
proof -
  have "seconds (rawTiming millis) < 60" "minutes (rawTiming millis) < 60" "hours (rawTiming millis) < 24"
    by (simp_all add: rawTiming_def Let_def jsRem_less)
  moreover have "getSecondsMinutesHoursFromMillis millis = rawTiming millis"
    by (simp only: getSecondsMinutesHoursFromMillis_def clampTiming_rawTiming)
  ultimately show ?thesis by simp
qed

theorem C7_clamp_unreachable_witness:
  "(0::real) \<le> 3599999 \<and> seconds (rawTiming 3599999) < 60 \<and> minutes (rawTiming 3599999) < 60
   \<and> hours (rawTiming 3599999) < 24
   \<and> getSecondsMinutesHoursFromMillis 3599999 = rawTiming 3599999"
proof -
  have h: "(0::real) \<le> 3599999" by simp
  show ?thesis using h C7_clamp_unreachable [OF h] by simp
qed

text \<open>
  C8. On every non-negative input the function computes the decomposition the specification
  describes (whole seconds, days = delta/86400, hours = remaining/3600 mod 24,
  minutes = remaining/60 mod 60, seconds = remainder mod 60); 90,061,000 ms is
  1 day, 1 hour, 1 minute, 1 second, and 0 ms gives all-zero fields.
\<close>

theorem C8_decomposition_follows_spec:
  "(0 \<le> millis \<longrightarrow> getSecondsMinutesHoursFromMillis millis = specTimeDecomposition millis)
   \<and> getSecondsMinutesHoursFromMillis 90061000 = \<lparr>seconds = 1, minutes = 1, hours = 1, days = 1\<rparr>
   \<and> getSecondsMinutesHoursFromMillis 0 = \<lparr>seconds = 0, minutes = 0, hours = 0, days = 0\<rparr>"
proof -
  have a: "getSecondsMinutesHoursFromMillis 90061000 = \<lparr>seconds = 1, minutes = 1, hours = 1, days = 1\<rparr>"
    by (simp add: getSecondsMinutesHoursFromMillis_eq_spec specTimeDecomposition_closed)
  have b: "getSecondsMinutesHoursFromMillis 0 = \<lparr>seconds = 0, minutes = 0, hours = 0, days = 0\<rparr>"
    by (simp add: getSecondsMinutesHoursFromMillis_eq_spec specTimeDecomposition_closed)
  show ?thesis using a b by (simp add: getSecondsMinutesHoursFromMillis_eq_spec)
qed

theorem C8_decomposition_follows_spec_witness:
  "(0::real) \<le> 3725000
   \<and> getSecondsMinutesHoursFromMillis 3725000 = specTimeDecomposition 3725000
   \<and> specTimeDecomposition 3725000 = \<lparr>seconds = 5, minutes = 2, hours = 1, days = 0\<rparr>"
proof -
  have s: "specTimeDecomposition 3725000 = \<lparr>seconds = 5, minutes = 2, hours = 1, days = 0\<rparr>"
    by (simp add: specTimeDecomposition_closed)
  show ?thesis using C8_decomposition_follows_spec [of 3725000] s by simp
qed

text \<open>
  C10. For a non-negative millisecond input that is a whole multiple of 1000 the returned
  fields recompose exactly: days*86400 + hours*3600 + minutes*60 + seconds = millis/1000.
\<close>

theorem C10_fields_recompose:
  assumes "0 \<le> k" and m: "millis = 1000 * real_of_int k"
  shows "real_of_int (days (getSecondsMinutesHoursFromMillis millis) * 86400
           + hours (getSecondsMinutesHoursFromMillis millis) * 3600
           + minutes (getSecondsMinutesHoursFromMillis millis) * 60
           + seconds (getSecondsMinutesHoursFromMillis millis)) = millis / 1000"
proof -
  have w: "\<lfloor>millis / 1000\<rfloor> = k" by (simp add: m)
  have "k div 86400 * 86400 + k mod 86400 div 3600 * 3600 + k mod 86400 mod 3600 div 60 * 60
        + k mod 86400 mod 3600 mod 60 = k"
    by (metis (no_types, opaque_lifting) add.assoc div_mult_mod_eq)
  then show ?thesis
    by (simp add: getSecondsMinutesHoursFromMillis_eq_spec specTimeDecomposition_closed w) (simp add: m)
qed

theorem C10_fields_recompose_witness:
  "(0::int) \<le> 90061 \<and> (90061000::real) = 1000 * real_of_int 90061
   \<and> real_of_int (days (getSecondsMinutesHoursFromMillis 90061000) * 86400
           + hours (getSecondsMinutesHoursFromMillis 90061000) * 3600
           + minutes (getSecondsMinutesHoursFromMillis 90061000) * 60
           + seconds (getSecondsMinutesHoursFromMillis 90061000)) = 90061000 / 1000"
proof -
  have h: "(0::int) \<le> 90061" by simp
  have e: "(90061000::real) = 1000 * real_of_int 90061" by simp
  show ?thesis using h e C10_fields_recompose [OF h e] by simp
qed

section \<open>Properties of the contribution index formatter\<close>

lemma padIndex_replicate: "padIndex s = replicate (5 - length s) (CHR ''0'') @ s"
proof (induction s rule: padIndex.induct)
  case (1 index)
  show ?case
  proof (cases "length index < length firstZkeyIndex")
    case True
    then have "padIndex index = padIndex (CHR ''0'' # index)" by (simp add: padIndex.simps)
    also have "\<dots> = replicate (5 - length (CHR ''0'' # index)) (CHR ''0'') @ CHR ''0'' # index"
      using 1 True by simp
    also have "\<dots> = replicate (5 - length index) (CHR ''0'') @ index"
      using True by (simp add: firstZkeyIndex_def replicate_app_Cons_same Suc_diff_Suc flip: replicate_Suc)
    finally show ?thesis .
  next
    case False
    then show ?thesis by (simp add: padIndex.simps firstZkeyIndex_def)
  qed
qed

text \<open>
  C9. The formatter pads the decimal index with zeros on the left up to the width of
  \<open>firstZkeyIndex\<close>, which is 5: index 3 gives "00003"; an index with more digits than the
  width, such as 100000, is returned unchanged and never truncated (the result always
  ends with the full decimal representation).
\<close>

theorem C9_formatZkeyIndex:
  "length firstZkeyIndex = 5
   \<and> formatZkeyIndex 3 = ''00003''
   \<and> formatZkeyIndex 100000 = ''100000''
   \<and> formatZkeyIndex n = replicate (5 - length (toStringNat n)) (CHR ''0'') @ toStringNat n
   \<and> length (formatZkeyIndex n) = max 5 (length (toStringNat n))"
proof -
  have t3: "toStringNat 3 = ''3''" by (simp add: toStringNat.simps digitChar_def)
  have a: "formatZkeyIndex 3 = ''00003''"
    using t3 by (simp add: formatZkeyIndex_def padIndex_replicate eval_nat_numeral)
  have b: "formatZkeyIndex 100000 = ''100000''"
    by (simp add: formatZkeyIndex_def padIndex_replicate toStringNat.simps digitChar_def)
  have c: "formatZkeyIndex n = replicate (5 - length (toStringNat n)) (CHR ''0'') @ toStringNat n"
    by (simp add: formatZkeyIndex_def padIndex_replicate)
  have d: "length (formatZkeyIndex n) = max 5 (length (toStringNat n))"
    unfolding c by simp
  show ?thesis using a b c d by (simp add: firstZkeyIndex_def)
qed

section \<open>Properties of runs\<close>

lemma andThen_ret [simp]: "andThen (ret x) f = f x"
  by (simp add: andThen_def ret_def split: prod.splits)

lemma andThen_assoc: "andThen (andThen m f) g = andThen m (\<lambda>x. andThen (f x) g)"
  by (cases m; cases "snd m") (auto simp: andThen_def split: prod.splits sum.splits)

lemma andThen_Inl: "snd m = Inl e \<Longrightarrow> andThen m f = (fst m, Inl e)"
  by (cases m) (simp add: andThen_def)

lemma andThen_Inr: "snd m = Inr x \<Longrightarrow> andThen m f = (fst m @ fst (f x), snd (f x))"
  by (cases m) (simp add: andThen_def split: prod.splits)

lemma andThen_pair_Inr [simp]: "andThen (t, Inr x) f = (t @ fst (f x), snd (f x))"
  by (simp add: andThen_Inr)

lemma andThen_pair_Inl [simp]: "andThen (t, Inl e) f = (t, Inl e)"
  by (simp add: andThen_Inl)

lemma andThen_showError_fatal [simp]: "andThen (showError err True) f = ([], Inl (Fatal err))"
  by (simp add: showError_def andThen_def)

lemma fst_ret [simp]: "fst (ret x) = []"
  by (simp add: ret_def)

lemma snd_ret [simp]: "snd (ret x) = Inr x"
  by (simp add: ret_def)

lemma fst_await [simp]: "fst (await w ev) = [ev]"
  by (simp add: await_def)

lemma snd_await: "snd (await w ev) = (if rejects w ev then Inl (Rejected ev) else Inr ())"
  by (simp add: await_def)

lemma fst_showError [simp]: "fst (showError err b) = []"
  by (simp add: showError_def)

lemma await_resolves: "\<not> rejects w ev \<Longrightarrow> await w ev = ([ev], Inr ())"
  by (simp add: await_def)

lemma fst_andThen_await: "fst (andThen (await w e) f) = e # (if rejects w e then [] else fst (f ()))"
  by (simp add: await_def)

lemma fst_makeContributionStepProgress [simp]:
  "fst (makeContributionStepProgress w c b m) = [ProgressToNextContributionStep c]"
  by (simp add: makeContributionStepProgress_def)

text \<open>A property of every call of the parts holds of every call of the sequence.\<close>

lemma events_andThen:
  assumes "\<forall>e\<in>set (fst m). P e" and "\<And>x. \<forall>e\<in>set (fst (f x)). P e"
  shows "\<forall>e\<in>set (fst (andThen m f)). P e"
proof (cases "snd m")
  case (Inl e)
  then show ?thesis using assms(1) by (simp add: andThen_Inl)
next
  case (Inr x)
  then show ?thesis using assms by (auto simp: andThen_Inr)
qed

lemma events_andThen_prod:
  assumes "\<forall>e\<in>set (fst m). P e" and "\<And>a b. \<forall>e\<in>set (fst (f a b)). P e"
  shows "\<forall>e\<in>set (fst (andThen m (\<lambda>(a, b). f a b))). P e"
  using assms by (intro events_andThen) (simp_all split: prod.splits)

lemma events_if_ret:
  "(\<forall>e\<in>set (fst m). P e) \<Longrightarrow> \<forall>e\<in>set (fst (if g then m else ret ())). P e"
  by simp

text \<open>Which errors a sequence can end with.\<close>

lemma errors_andThen:
  assumes "\<forall>e. snd m = Inl e \<longrightarrow> P e" and "\<And>x. \<forall>e. snd (f x) = Inl e \<longrightarrow> P e"
  shows "\<forall>e. snd (andThen m f) = Inl e \<longrightarrow> P e"
proof (cases "snd m")
  case (Inl e)
  then show ?thesis using assms(1) by (simp add: andThen_Inl)
next
  case (Inr x)
  then show ?thesis using assms(2) by (simp add: andThen_Inr)
qed

lemma split_andThen:
  assumes "\<forall>e\<in>set (fst m). Q e"
    and "\<And>x. \<exists>pre post. fst (f x) = pre @ post \<and> (\<forall>e\<in>set pre. Q e) \<and> (\<forall>e\<in>set post. R e)"
  shows "\<exists>pre post. fst (andThen m f) = pre @ post \<and> (\<forall>e\<in>set pre. Q e) \<and> (\<forall>e\<in>set post. R e)"
proof (cases "snd m")
  case (Inl e)
  then have "fst (andThen m f) = fst m @ []" by (simp add: andThen_Inl)
  moreover have "\<forall>e\<in>set []. R e" by simp
  ultimately show ?thesis using assms(1) by blast
next
  case (Inr x)
  obtain pre post where p: "fst (f x) = pre @ post" "\<forall>e\<in>set pre. Q e" "\<forall>e\<in>set post. R e"
    using assms(2) by blast
  have "fst (andThen m f) = (fst m @ pre) @ post" using Inr p(1) by (simp add: andThen_Inr)
  moreover have "\<forall>e\<in>set (fst m @ pre). Q e" using assms(1) p(2) by auto
  ultimately show ?thesis using p(3) by blast
qed

section \<open>Properties of the contribution hash pattern\<close>


lemma firstSome_all_None: "\<forall>x\<in>set xs. x = None \<Longrightarrow> firstSome xs = None"
  by (induction xs rule: firstSome.induct) simp_all

lemma firstSome_const:
  assumes "\<forall>x\<in>set xs. x = None \<or> x = T" and "T \<in> set xs"
  shows "firstSome xs = T"
proof (cases T)
  case None
  then have "\<forall>x\<in>set xs. x = None" using assms(1) by auto
  then show ?thesis unfolding None by (rule firstSome_all_None)
next
  case (Some v)
  show ?thesis
    using assms unfolding Some
    by (induction xs rule: firstSome.induct) auto
qed

lemma firstSome_SomeE:
  "firstSome xs = Some v \<Longrightarrow> Some v \<in> set xs"
  by (induction xs rule: firstSome.induct) auto

lemma matchAt_Lit: "matchAt (Lit l # r) (l @ s) = map_option (\<lambda>n. length l + n) (matchAt r s)"
  by (simp add: matchAt.simps)

lemma matchAt_Lit_no: "take (length l) s \<noteq> l \<Longrightarrow> matchAt (Lit l # r) s = None"
  by (simp add: matchAt.simps(2))

lemma takeWhile_line:
  assumes "\<forall>c\<in>set x. \<not> isLineTerminator c"
  shows "takeWhile (\<lambda>c. \<not> isLineTerminator c) (x @ CHR 0x0A # s) = x"
  using assms by (simp add: takeWhile_append2 isLineTerminator_def)

lemma matchAt_AnyPlus_eol_empty:
  "matchAt (AnyPlus # r) (CHR 0x0A # s) = None"
  by (simp add: matchAt.simps isLineTerminator_def)

lemma matchAt_AnyPlus_to_eol:
  assumes "lineText x"
  shows "matchAt (AnyPlus # Lit (CHR 0x0A # l) # r) (x @ CHR 0x0A # s)
         = map_option (\<lambda>n. length x + n) (matchAt (Lit (CHR 0x0A # l) # r) (CHR 0x0A # s))"
proof -
  define f where "f = (\<lambda>k. map_option (\<lambda>n. k + n)
                          (matchAt (Lit (CHR 0x0A # l) # r) (drop k (x @ CHR 0x0A # s))))"
  have ne: "x \<noteq> []" and nt: "\<forall>c\<in>set x. \<not> isLineTerminator c"
    using assms by (simp_all add: lineText_def)
  have tw: "takeWhile (\<lambda>c. \<not> isLineTerminator c) (x @ CHR 0x0A # s) = x"
    by (rule takeWhile_line [OF nt])
  have short: "f k = None" if "k < length x" for k
  proof -
    have d: "drop k (x @ CHR 0x0A # s) = x ! k # drop (Suc k) x @ CHR 0x0A # s"
      using that by (simp add: Cons_nth_drop_Suc)
    have "x ! k \<in> set x" using that by simp
    then have "x ! k \<noteq> CHR 0x0A" using nt by (auto simp: isLineTerminator_def)
    then show ?thesis unfolding f_def d by (simp add: matchAt.simps)
  qed
  have ks: "rev [1..<Suc (length x)] = length x # rev [1..<length x]"
    using ne by (cases x) simp_all
  have rest: "firstSome (map f (rev [1..<length x])) = None"
    by (rule firstSome_all_None) (auto simp: short)
  have "matchAt (AnyPlus # Lit (CHR 0x0A # l) # r) (x @ CHR 0x0A # s)
        = firstSome (f (length x) # map f (rev [1..<length x]))"
    by (simp only: matchAt.simps tw ks list.map f_def)
  also have "\<dots> = f (length x)"
    using rest by (cases "f (length x)") simp_all
  finally show ?thesis by (simp add: f_def)
qed


lemma matchAt_through_Hash:
  assumes a: "lineText a" and b: "lineText b"
  shows "matchAt (AnyPlus # Lit ''Hash'' # AnyPlus # Lit (CHR 0x0A # l) # r) (a @ ''Hash'' @ b @ CHR 0x0A # s)
         = map_option (\<lambda>n. length a + 4 + length b + n) (matchAt (Lit (CHR 0x0A # l) # r) (CHR 0x0A # s))"
proof -
  define line where "line = a @ ''Hash'' @ b"
  define R where "R = matchAt (Lit (CHR 0x0A # l) # r) (CHR 0x0A # s)"
  define T where "T = map_option (\<lambda>n. length line + n) R"
  define f where "f = (\<lambda>k. map_option (\<lambda>n. k + n)
      (matchAt (Lit ''Hash'' # AnyPlus # Lit (CHR 0x0A # l) # r) (drop k (line @ CHR 0x0A # s))))"
  have nt: "\<forall>c\<in>set line. \<not> isLineTerminator c"
    using a b by (auto simp: line_def lineText_def isLineTerminator_def)
  have tw: "takeWhile (\<lambda>c. \<not> isLineTerminator c) (line @ CHR 0x0A # s) = line"
    by (rule takeWhile_line [OF nt])
  have after: "matchAt (Lit ''Hash'' # AnyPlus # Lit (CHR 0x0A # l) # r) (''Hash'' @ v @ CHR 0x0A # s)
               = (if v = [] then None else map_option (\<lambda>n. 4 + length v + n) R)"
    if "\<forall>c\<in>set v. \<not> isLineTerminator c" for v
  proof (cases "v = []")
    case True
    then show ?thesis
      unfolding matchAt_Lit by (simp add: matchAt_AnyPlus_eol_empty)
  next
    case False
    then have "lineText v" using that by (simp add: lineText_def)
    then show ?thesis
      unfolding matchAt_Lit matchAt_AnyPlus_to_eol [OF \<open>lineText v\<close>] R_def [symmetric]
      using False by (cases R) simp_all
  qed
  have each: "f k = None \<or> f k = T" if k: "k \<le> length line" for k
  proof -
    define u where "u = drop k line"
    have d: "drop k (line @ CHR 0x0A # s) = u @ CHR 0x0A # s"
      using k by (simp add: u_def)
    have lu: "k + length u = length line" using k by (simp add: u_def)
    have ntu: "\<forall>c\<in>set u. \<not> isLineTerminator c"
      using nt unfolding u_def by (meson in_set_dropD)
    show ?thesis
    proof (cases "take 4 (u @ CHR 0x0A # s) = ''Hash''")
      case False
      have l4: "length ''Hash'' = 4" by simp
      have "take (length ''Hash'') (u @ CHR 0x0A # s) \<noteq> ''Hash''"
        unfolding l4 by (rule False)
      then have "matchAt (Lit ''Hash'' # AnyPlus # Lit (CHR 0x0A # l) # r) (u @ CHR 0x0A # s) = None"
        by (rule matchAt_Lit_no)
      then have "f k = None" unfolding f_def d by simp
      then show ?thesis ..
    next
      case True
      have "4 \<le> length u"
      proof (rule ccontr)
        assume "\<not> 4 \<le> length u"
        then have lt: "length u < 4" by simp
        then have "take 4 (u @ CHR 0x0A # s) ! length u = CHR 0x0A"
          by (simp add: nth_append)
        then have "''Hash'' ! length u = CHR 0x0A" unfolding True .
        moreover have "''Hash'' ! i \<noteq> CHR 0x0A" if "i < 4" for i
          using that by (auto simp: less_Suc_eq numeral_eq_Suc)
        ultimately show False using lt by blast
      qed
      then have tk: "take 4 u = ''Hash''" using True by simp
      define v where "v = drop 4 u"
      have uv: "u = ''Hash'' @ v"
        unfolding v_def tk [symmetric] by simp
      have ntv: "\<forall>c\<in>set v. \<not> isLineTerminator c"
        using ntu unfolding v_def by (meson in_set_dropD)
      have lv: "k + 4 + length v = length line"
        using lu unfolding uv by simp
      have m: "matchAt (Lit ''Hash'' # AnyPlus # Lit (CHR 0x0A # l) # r) (u @ CHR 0x0A # s)
               = (if v = [] then None else map_option (\<lambda>n. 4 + length v + n) R)"
        using after [OF ntv] unfolding uv by simp
      show ?thesis
      proof (cases "v = []")
        case True
        then have "f k = None" unfolding f_def d m by simp
        then show ?thesis ..
      next
        case False
        then have "f k = map_option (\<lambda>n. k + (4 + length v + n)) R"
          unfolding f_def d m by (cases R) simp_all
        also have "\<dots> = T"
          unfolding T_def lv [symmetric] by (cases R) simp_all
        finally show ?thesis ..
      qed
    qed
  qed
  have at_a: "f (length a) = T"
  proof -
    have nb: "\<forall>c\<in>set b. \<not> isLineTerminator c" and "b \<noteq> []"
      using b by (simp_all add: lineText_def)
    have "drop (length a) (line @ CHR 0x0A # s) = ''Hash'' @ b @ CHR 0x0A # s"
      by (simp add: line_def)
    then have "f (length a) = map_option (\<lambda>n. length a + (4 + length b + n)) R"
      unfolding f_def using after [OF nb] \<open>b \<noteq> []\<close> by (cases R) simp_all
    also have "\<dots> = T"
      unfolding T_def line_def by (cases R) simp_all
    finally show ?thesis .
  qed
  have ne: "a \<noteq> []" using a by (simp add: lineText_def)
  have mem: "T \<in> set (map f (rev [1..<Suc (length line)]))"
  proof -
    have "length a \<in> set (rev [1..<Suc (length line)])"
      using ne by (simp add: line_def Suc_le_eq)
    then have "f (length a) \<in> set (map f (rev [1..<Suc (length line)]))"
      by (simp only: set_map) (rule imageI)
    then show ?thesis unfolding at_a .
  qed
  have all: "\<forall>y\<in>set (map f (rev [1..<Suc (length line)])). y = None \<or> y = T"
  proof
    fix y assume "y \<in> set (map f (rev [1..<Suc (length line)]))"
    then have "\<exists>k. k \<le> length line \<and> y = f k"
      by (auto simp del: upt_Suc simp: less_Suc_eq_le)
    then obtain k where "k \<le> length line" and "y = f k" by blast
    then show "y = None \<or> y = T" using each [of k] by simp
  qed
  have "matchAt (AnyPlus # Lit ''Hash'' # AnyPlus # Lit (CHR 0x0A # l) # r) (line @ CHR 0x0A # s)
        = firstSome (map f (rev [1..<Suc (length line)]))"
    by (simp only: matchAt.simps(3) tw f_def)
  also have "\<dots> = T"
    by (rule firstSome_const [OF all mem])
  finally have "matchAt (AnyPlus # Lit ''Hash'' # AnyPlus # Lit (CHR 0x0A # l) # r) (line @ CHR 0x0A # s)
                = map_option (\<lambda>n. length a + 4 + length b + n) R"
    unfolding T_def line_def by (cases R) simp_all
  then show ?thesis
    unfolding R_def line_def by simp
qed


lemma length_hashBlock:
  "length (hashBlock a b l1 l2 l3 l4)
   = 27 + length a + length b + length l1 + length l2 + length l3 + length l4"
  by (simp add: hashBlock_def)

lemma matchAt_hashBlock:
  assumes a: "lineText a" and b: "lineText b" and l1: "lineText l1" and l2: "lineText l2"
    and l3: "lineText l3" and l4: "lineText l4"
  shows "matchAt contributionHashPattern (hashBlock a b l1 l2 l3 l4 @ rest)
         = Some (length (hashBlock a b l1 l2 l3 l4))"
proof -
  have e1: "matchAt [Lit [CHR 0x0A]] (CHR 0x0A # rest) = Some 1"
    by (simp add: matchAt.simps(1,2))
  have e2: "matchAt [AnyPlus, Lit [CHR 0x0A]] (l4 @ CHR 0x0A # rest) = Some (length l4 + 1)"
    unfolding matchAt_AnyPlus_to_eol [OF l4] e1 by simp
  have e3: "matchAt [Lit [CHR 0x0A, CHR 0x09, CHR 0x09], AnyPlus, Lit [CHR 0x0A]]
              (CHR 0x0A # CHR 0x09 # CHR 0x09 # l4 @ CHR 0x0A # rest) = Some (3 + (length l4 + 1))"
    using matchAt_Lit [of "[CHR 0x0A, CHR 0x09, CHR 0x09]" "[AnyPlus, Lit [CHR 0x0A]]" "l4 @ CHR 0x0A # rest"]
    unfolding e2 by simp
  have e4: "matchAt [AnyPlus, Lit [CHR 0x0A, CHR 0x09, CHR 0x09], AnyPlus, Lit [CHR 0x0A]]
              (l3 @ CHR 0x0A # CHR 0x09 # CHR 0x09 # l4 @ CHR 0x0A # rest)
            = Some (length l3 + (3 + (length l4 + 1)))"
    unfolding matchAt_AnyPlus_to_eol [OF l3] e3 by simp
  have e5: "matchAt [Lit [CHR 0x0A], AnyPlus, Lit [CHR 0x0A, CHR 0x09, CHR 0x09], AnyPlus, Lit [CHR 0x0A]]
              (CHR 0x0A # l3 @ CHR 0x0A # CHR 0x09 # CHR 0x09 # l4 @ CHR 0x0A # rest)
            = Some (1 + (length l3 + (3 + (length l4 + 1))))"
    using matchAt_Lit [of "[CHR 0x0A]" "[AnyPlus, Lit [CHR 0x0A, CHR 0x09, CHR 0x09], AnyPlus, Lit [CHR 0x0A]]"
        "l3 @ CHR 0x0A # CHR 0x09 # CHR 0x09 # l4 @ CHR 0x0A # rest"]
    unfolding e4 by simp
  have e6: "matchAt [AnyPlus, Lit [CHR 0x0A], AnyPlus, Lit [CHR 0x0A, CHR 0x09, CHR 0x09], AnyPlus, Lit [CHR 0x0A]]
              (l2 @ CHR 0x0A # l3 @ CHR 0x0A # CHR 0x09 # CHR 0x09 # l4 @ CHR 0x0A # rest)
            = Some (length l2 + (1 + (length l3 + (3 + (length l4 + 1)))))"
    unfolding matchAt_AnyPlus_to_eol [OF l2] e5 by simp
  have e7: "matchAt [Lit [CHR 0x0A, CHR 0x09, CHR 0x09], AnyPlus, Lit [CHR 0x0A], AnyPlus,
                     Lit [CHR 0x0A, CHR 0x09, CHR 0x09], AnyPlus, Lit [CHR 0x0A]]
              (CHR 0x0A # CHR 0x09 # CHR 0x09 # l2 @ CHR 0x0A # l3 @ CHR 0x0A # CHR 0x09 # CHR 0x09
                 # l4 @ CHR 0x0A # rest)
            = Some (3 + (length l2 + (1 + (length l3 + (3 + (length l4 + 1))))))"
    using matchAt_Lit [of "[CHR 0x0A, CHR 0x09, CHR 0x09]"
        "[AnyPlus, Lit [CHR 0x0A], AnyPlus, Lit [CHR 0x0A, CHR 0x09, CHR 0x09], AnyPlus, Lit [CHR 0x0A]]"
        "l2 @ CHR 0x0A # l3 @ CHR 0x0A # CHR 0x09 # CHR 0x09 # l4 @ CHR 0x0A # rest"]
    unfolding e6 by simp
  have e8: "matchAt [AnyPlus, Lit [CHR 0x0A, CHR 0x09, CHR 0x09], AnyPlus, Lit [CHR 0x0A], AnyPlus,
                     Lit [CHR 0x0A, CHR 0x09, CHR 0x09], AnyPlus, Lit [CHR 0x0A]]
              (l1 @ CHR 0x0A # CHR 0x09 # CHR 0x09 # l2 @ CHR 0x0A # l3 @ CHR 0x0A # CHR 0x09 # CHR 0x09
                 # l4 @ CHR 0x0A # rest)
            = Some (length l1 + (3 + (length l2 + (1 + (length l3 + (3 + (length l4 + 1)))))))"
    unfolding matchAt_AnyPlus_to_eol [OF l1] e7 by simp
  have e9: "matchAt [Lit [CHR 0x0A, CHR 0x09, CHR 0x09], AnyPlus, Lit [CHR 0x0A, CHR 0x09, CHR 0x09],
                     AnyPlus, Lit [CHR 0x0A], AnyPlus,
                     Lit [CHR 0x0A, CHR 0x09, CHR 0x09], AnyPlus, Lit [CHR 0x0A]]
              (CHR 0x0A # CHR 0x09 # CHR 0x09 # l1 @ CHR 0x0A # CHR 0x09 # CHR 0x09 # l2 @ CHR 0x0A # l3
                 @ CHR 0x0A # CHR 0x09 # CHR 0x09 # l4 @ CHR 0x0A # rest)
            = Some (3 + (length l1 + (3 + (length l2 + (1 + (length l3 + (3 + (length l4 + 1))))))))"
    using matchAt_Lit [of "[CHR 0x0A, CHR 0x09, CHR 0x09]"
        "[AnyPlus, Lit [CHR 0x0A, CHR 0x09, CHR 0x09], AnyPlus, Lit [CHR 0x0A], AnyPlus,
          Lit [CHR 0x0A, CHR 0x09, CHR 0x09], AnyPlus, Lit [CHR 0x0A]]"
        "l1 @ CHR 0x0A # CHR 0x09 # CHR 0x09 # l2 @ CHR 0x0A # l3 @ CHR 0x0A # CHR 0x09 # CHR 0x09
           # l4 @ CHR 0x0A # rest"]
    unfolding e8 by simp
  have e10: "matchAt [AnyPlus, Lit ''Hash'', AnyPlus,
                     Lit [CHR 0x0A, CHR 0x09, CHR 0x09], AnyPlus, Lit [CHR 0x0A, CHR 0x09, CHR 0x09],
                     AnyPlus, Lit [CHR 0x0A], AnyPlus,
                     Lit [CHR 0x0A, CHR 0x09, CHR 0x09], AnyPlus, Lit [CHR 0x0A]]
              (a @ ''Hash'' @ b @ CHR 0x0A # CHR 0x09 # CHR 0x09 # l1 @ CHR 0x0A # CHR 0x09 # CHR 0x09
                 # l2 @ CHR 0x0A # l3 @ CHR 0x0A # CHR 0x09 # CHR 0x09 # l4 @ CHR 0x0A # rest)
            = Some (length a + 4 + length b
                    + (3 + (length l1 + (3 + (length l2 + (1 + (length l3 + (3 + (length l4 + 1)))))))))"
    unfolding matchAt_through_Hash [OF a b] e9 by simp
  have e11: "matchAt contributionHashPattern
              (''Contribution'' @ a @ ''Hash'' @ b @ CHR 0x0A # CHR 0x09 # CHR 0x09 # l1 @ CHR 0x0A # CHR 0x09
                 # CHR 0x09 # l2 @ CHR 0x0A # l3 @ CHR 0x0A # CHR 0x09 # CHR 0x09 # l4 @ CHR 0x0A # rest)
            = Some (12 + (length a + 4 + length b
                    + (3 + (length l1 + (3 + (length l2 + (1 + (length l3 + (3 + (length l4 + 1))))))))))"
    unfolding contributionHashPattern_def matchAt_Lit e10 by simp
  have shape: "hashBlock a b l1 l2 l3 l4 @ rest
        = ''Contribution'' @ a @ ''Hash'' @ b @ CHR 0x0A # CHR 0x09 # CHR 0x09 # l1 @ CHR 0x0A # CHR 0x09
                 # CHR 0x09 # l2 @ CHR 0x0A # l3 @ CHR 0x0A # CHR 0x09 # CHR 0x09 # l4 @ CHR 0x0A # rest"
    by (simp add: hashBlock_def)
  show ?thesis
    unfolding shape e11 by (simp add: length_hashBlock)
qed

text \<open>Conversely, a match of the pattern at the head of a string is a hash block.\<close>

lemma matchAt_LitE:
  assumes "matchAt (Lit l # r) s = Some n"
  obtains s' m where "s = l @ s'" and "matchAt r s' = Some m"
proof -
  have t: "take (length l) s = l"
    using assms by (simp add: matchAt.simps(2) split: if_splits)
  then have "matchAt r (drop (length l) s) \<noteq> None"
    using assms by (auto simp: matchAt.simps(2))
  then obtain m where m: "matchAt r (drop (length l) s) = Some m" by auto
  have "s = l @ drop (length l) s"
    using append_take_drop_id [of "length l" s] unfolding t by simp
  then show ?thesis using m that by blast
qed

lemma matchAt_AnyPlusE:
  assumes "matchAt (AnyPlus # r) s = Some n"
  obtains x s' m where "s = x @ s'" and "lineText x" and "matchAt r s' = Some m"
proof -
  define line where "line = takeWhile (\<lambda>c. \<not> isLineTerminator c) s"
  define f where "f = (\<lambda>k. map_option (\<lambda>n. k + n) (matchAt r (drop k s)))"
  have "firstSome (map f (rev [1..<Suc (length line)])) = Some n"
    using assms by (simp only: matchAt.simps(3) f_def line_def)
  then have "Some n \<in> set (map f (rev [1..<Suc (length line)]))"
    by (rule firstSome_SomeE)
  then have "\<exists>k. 1 \<le> k \<and> k \<le> length line \<and> f k = Some n"
    by (auto simp del: upt_Suc simp: less_Suc_eq_le)
  then obtain k where k: "1 \<le> k" "k \<le> length line" and fk: "f k = Some n" by blast
  obtain m where m: "matchAt r (drop k s) = Some m"
    using fk unfolding f_def by auto
  have s: "s = line @ dropWhile (\<lambda>c. \<not> isLineTerminator c) s"
    unfolding line_def by simp
  have tk: "take k s = take k line"
    using k(2) by (subst s) simp
  have "set (take k line) \<subseteq> set line" by (rule set_take_subset)
  then have nt: "\<forall>c\<in>set (take k s). \<not> isLineTerminator c"
    unfolding tk line_def by (auto dest: set_takeWhileD)
  have "length (take k s) = k"
    unfolding tk using k(2) by simp
  then have ne: "take k s \<noteq> []" using k(1) by auto
  have "lineText (take k s)" using ne nt by (simp add: lineText_def)
  moreover have "s = take k s @ drop k s" by simp
  ultimately show ?thesis using m that by blast
qed

lemma matchAt_is_hashBlock:
  assumes "matchAt contributionHashPattern s = Some n"
  shows "\<exists>a b l1 l2 l3 l4 rest. lineText a \<and> lineText b \<and> lineText l1 \<and> lineText l2
            \<and> lineText l3 \<and> lineText l4 \<and> s = hashBlock a b l1 l2 l3 l4 @ rest"
proof -
  from assms [unfolded contributionHashPattern_def]
  obtain s1 m1 where s1: "s = ''Contribution'' @ s1"
    and r1: "matchAt [AnyPlus, Lit ''Hash'', AnyPlus, Lit [CHR 0x0A, CHR 0x09, CHR 0x09], AnyPlus,
               Lit [CHR 0x0A, CHR 0x09, CHR 0x09], AnyPlus, Lit [CHR 0x0A], AnyPlus,
               Lit [CHR 0x0A, CHR 0x09, CHR 0x09], AnyPlus, Lit [CHR 0x0A]] s1 = Some m1"
    by (rule matchAt_LitE)
  from r1 obtain a s2 m2 where s2: "s1 = a @ s2" and a: "lineText a"
    and r2: "matchAt [Lit ''Hash'', AnyPlus, Lit [CHR 0x0A, CHR 0x09, CHR 0x09], AnyPlus,
               Lit [CHR 0x0A, CHR 0x09, CHR 0x09], AnyPlus, Lit [CHR 0x0A], AnyPlus,
               Lit [CHR 0x0A, CHR 0x09, CHR 0x09], AnyPlus, Lit [CHR 0x0A]] s2 = Some m2"
    by (rule matchAt_AnyPlusE)
  from r2 obtain s3 m3 where s3: "s2 = ''Hash'' @ s3"
    and r3: "matchAt [AnyPlus, Lit [CHR 0x0A, CHR 0x09, CHR 0x09], AnyPlus,
               Lit [CHR 0x0A, CHR 0x09, CHR 0x09], AnyPlus, Lit [CHR 0x0A], AnyPlus,
               Lit [CHR 0x0A, CHR 0x09, CHR 0x09], AnyPlus, Lit [CHR 0x0A]] s3 = Some m3"
    by (rule matchAt_LitE)
  from r3 obtain b s4 m4 where s4: "s3 = b @ s4" and b: "lineText b"
    and r4: "matchAt [Lit [CHR 0x0A, CHR 0x09, CHR 0x09], AnyPlus,
               Lit [CHR 0x0A, CHR 0x09, CHR 0x09], AnyPlus, Lit [CHR 0x0A], AnyPlus,
               Lit [CHR 0x0A, CHR 0x09, CHR 0x09], AnyPlus, Lit [CHR 0x0A]] s4 = Some m4"
    by (rule matchAt_AnyPlusE)
  from r4 obtain s5 m5 where s5: "s4 = [CHR 0x0A, CHR 0x09, CHR 0x09] @ s5"
    and r5: "matchAt [AnyPlus, Lit [CHR 0x0A, CHR 0x09, CHR 0x09], AnyPlus, Lit [CHR 0x0A], AnyPlus,
               Lit [CHR 0x0A, CHR 0x09, CHR 0x09], AnyPlus, Lit [CHR 0x0A]] s5 = Some m5"
    by (rule matchAt_LitE)
  from r5 obtain l1 s6 m6 where s6: "s5 = l1 @ s6" and l1: "lineText l1"
    and r6: "matchAt [Lit [CHR 0x0A, CHR 0x09, CHR 0x09], AnyPlus, Lit [CHR 0x0A], AnyPlus,
               Lit [CHR 0x0A, CHR 0x09, CHR 0x09], AnyPlus, Lit [CHR 0x0A]] s6 = Some m6"
    by (rule matchAt_AnyPlusE)
  from r6 obtain s7 m7 where s7: "s6 = [CHR 0x0A, CHR 0x09, CHR 0x09] @ s7"
    and r7: "matchAt [AnyPlus, Lit [CHR 0x0A], AnyPlus,
               Lit [CHR 0x0A, CHR 0x09, CHR 0x09], AnyPlus, Lit [CHR 0x0A]] s7 = Some m7"
    by (rule matchAt_LitE)
  from r7 obtain l2 s8 m8 where s8: "s7 = l2 @ s8" and l2: "lineText l2"
    and r8: "matchAt [Lit [CHR 0x0A], AnyPlus,
               Lit [CHR 0x0A, CHR 0x09, CHR 0x09], AnyPlus, Lit [CHR 0x0A]] s8 = Some m8"
    by (rule matchAt_AnyPlusE)
  from r8 obtain s9 m9 where s9: "s8 = [CHR 0x0A] @ s9"
    and r9: "matchAt [AnyPlus, Lit [CHR 0x0A, CHR 0x09, CHR 0x09], AnyPlus, Lit [CHR 0x0A]] s9 = Some m9"
    by (rule matchAt_LitE)
  from r9 obtain l3 s10 m10 where s10: "s9 = l3 @ s10" and l3: "lineText l3"
    and r10: "matchAt [Lit [CHR 0x0A, CHR 0x09, CHR 0x09], AnyPlus, Lit [CHR 0x0A]] s10 = Some m10"
    by (rule matchAt_AnyPlusE)
  from r10 obtain s11 m11 where s11: "s10 = [CHR 0x0A, CHR 0x09, CHR 0x09] @ s11"
    and r11: "matchAt [AnyPlus, Lit [CHR 0x0A]] s11 = Some m11"
    by (rule matchAt_LitE)
  from r11 obtain l4 s12 m12 where s12: "s11 = l4 @ s12" and l4: "lineText l4"
    and r12: "matchAt [Lit [CHR 0x0A]] s12 = Some m12"
    by (rule matchAt_AnyPlusE)
  from r12 obtain s13 m13 where s13: "s12 = [CHR 0x0A] @ s13"
    by (rule matchAt_LitE)
  have "s = hashBlock a b l1 l2 l3 l4 @ s13"
    unfolding s1 s2 s3 s4 s5 s6 s7 s8 s9 s10 s11 s12 s13 hashBlock_def by simp
  then show ?thesis using a b l1 l2 l3 l4 by blast
qed

text \<open>The leftmost match.\<close>

lemma regexMatch_SomeD:
  "regexMatch p t = Some m \<Longrightarrow> \<exists>i n. matchAt p (drop i t) = Some n"
proof (induction t)
  case Nil
  then have "matchAt p (drop 0 []) \<noteq> None"
    by (auto simp: regexMatch.simps split: option.splits)
  then show ?case by blast
next
  case (Cons c cs)
  show ?case
  proof (cases "matchAt p (c # cs)")
    case None
    then have "regexMatch p cs = Some m" using Cons.prems by (simp add: regexMatch.simps)
    then obtain i n where "matchAt p (drop i cs) = Some n" using Cons.IH by blast
    then have "matchAt p (drop (Suc i) (c # cs)) = Some n" by simp
    then show ?thesis by blast
  next
    case (Some n)
    then have "matchAt p (drop 0 (c # cs)) = Some n" by simp
    then show ?thesis by blast
  qed
qed

lemma regexMatch_leftmost:
  assumes "\<forall>i<length pre. matchAt p (drop i (pre @ s)) = None" and "matchAt p s = Some n"
  shows "regexMatch p (pre @ s) = Some (take n s)"
  using assms(1)
proof (induction pre)
  case Nil
  then show ?case using assms(2) by (cases s) (simp_all add: regexMatch.simps)
next
  case (Cons c pre)
  have h: "matchAt p (c # pre @ s) = None"
    using Cons.prems by (auto dest: spec [of _ 0])
  have "\<forall>i<length pre. matchAt p (drop i (pre @ s)) = None"
  proof (intro allI impI)
    fix i assume "i < length pre"
    then have "matchAt p (drop (Suc i) ((c # pre) @ s)) = None"
      using Cons.prems by (auto dest!: spec [of _ "Suc i"])
    then show "matchAt p (drop i (pre @ s)) = None" by simp
  qed
  then have "regexMatch p (pre @ s) = Some (take n s)" by (rule Cons.IH)
  then show ?case using h by (simp add: regexMatch.simps)
qed

text \<open>The first line break and tabs of a hash block are those after its first line.\<close>

lemma replaceFirst_after:
  assumes "d \<notin> set x"
  shows "replaceFirst (d # pat) rep (x @ (d # pat) @ y) = x @ rep @ y"
  using assms by (induction x) auto

lemma replaceFirst_hashBlock:
  assumes "lineText a" and "lineText b"
  shows "replaceFirst [CHR 0x0A, CHR 0x09, CHR 0x09] [] (hashBlock a b l1 l2 l3 l4)
         = hashFingerprint a b l1 l2 l3 l4"
proof -
  have "CHR 0x0A \<notin> set (''Contribution'' @ a @ ''Hash'' @ b)"
    using assms by (auto simp: lineText_def isLineTerminator_def)
  from replaceFirst_after [OF this, of "[CHR 0x09, CHR 0x09]" "[]"
      "l1 @ [CHR 0x0A, CHR 0x09, CHR 0x09] @ l2 @ [CHR 0x0A] @ l3 @ [CHR 0x0A, CHR 0x09, CHR 0x09] @ l4 @ [CHR 0x0A]"]
  show ?thesis
    by (simp add: hashBlock_def hashFingerprint_def)
qed

lemma startsHashBlock_iff: "startsHashBlock s = (matchAt contributionHashPattern s \<noteq> None)"
proof
  assume "startsHashBlock s"
  then obtain a b l1 l2 l3 l4 rest where "lineText a" "lineText b" "lineText l1" "lineText l2"
      "lineText l3" "lineText l4" and s: "s = hashBlock a b l1 l2 l3 l4 @ rest"
    unfolding startsHashBlock_def by blast
  then show "matchAt contributionHashPattern s \<noteq> None"
    unfolding s by (simp add: matchAt_hashBlock)
next
  assume "matchAt contributionHashPattern s \<noteq> None"
  then obtain n where "matchAt contributionHashPattern s = Some n" by auto
  then show "startsHashBlock s"
    unfolding startsHashBlock_def by (rule matchAt_is_hashBlock)
qed

text \<open>The match of a transcript whose leftmost hash block is given, and of one without any.\<close>

lemma regexMatch_hashBlock:
  assumes "lineText a" and "lineText b" and "lineText l1" and "lineText l2" and "lineText l3" and "lineText l4"
    and first: "\<forall>i<length pre. \<not> startsHashBlock (drop i (pre @ hashBlock a b l1 l2 l3 l4 @ post))"
  shows "regexMatch contributionHashPattern (pre @ hashBlock a b l1 l2 l3 l4 @ post)
         = Some (hashBlock a b l1 l2 l3 l4)"
proof -
  have none: "\<forall>i<length pre. matchAt contributionHashPattern (drop i (pre @ hashBlock a b l1 l2 l3 l4 @ post)) = None"
    using first unfolding startsHashBlock_iff by simp
  have here: "matchAt contributionHashPattern (hashBlock a b l1 l2 l3 l4 @ post)
              = Some (length (hashBlock a b l1 l2 l3 l4))"
    using assms(1-6) by (rule matchAt_hashBlock)
  show ?thesis
    using regexMatch_leftmost [OF none here] by simp
qed

lemma regexMatch_no_hashBlock:
  assumes "\<forall>i. \<not> startsHashBlock (drop i t)"
  shows "regexMatch contributionHashPattern t = None"
proof (rule ccontr)
  assume "regexMatch contributionHashPattern t \<noteq> None"
  then obtain m where "regexMatch contributionHashPattern t = Some m" by auto
  then obtain i n where "matchAt contributionHashPattern (drop i t) = Some n"
    using regexMatch_SomeD by blast
  then show False using assms unfolding startsHashBlock_iff by simp
qed

section \<open>Evaluating the concrete inputs\<close>

lemma sampleWorld_simps [simp]:
  "rejects sampleWorld e = False"
  "presignedUrlExpiration sampleWorld = Some ''7200''"
  "getBucketName sampleWorld p = p @ ''-bucket''"
  "readFile sampleWorld f = sampleTranscript"
  "timerMs sampleWorld = 1000"
  "mimeLookup sampleWorld f = ''application/octet-stream''"
  "openedUploadId sampleWorld = ''upload-1''"
  "numberOfParts sampleWorld f = 2"
  "recordedParts sampleWorld u = (if u = ''upload-0'' then [1] else [])"
  "urlOfPart sampleWorld i = ''url-'' @ toStringNat i"
  "etagOfPart sampleWorld i = ''etag-'' @ toStringNat i"
  "paths sampleWorld = \<lparr>contributionTranscriptsPath = ''transcripts'', finalTranscriptsPath = ''finalTranscripts'',
               contributionsPath = ''contributions'', finalZkeysPath = ''finalZkeys''\<rparr>"
  "verifyResponse sampleWorld = Some \<lparr>valid = True, verificationComputationTime = 10,
                             verifyCloudFunctionTime = 20, fullContributionTime = 30\<rparr>"
  by (simp_all add: sampleWorld_def)

lemma noHashWorld_simps [simp]:
  "rejects noHashWorld e = False"
  "readFile noHashWorld p = ''Contribution without a hash''"
  "timerMs noHashWorld = 1000"
  "paths noHashWorld = paths sampleWorld"
  "getBucketName noHashWorld = getBucketName sampleWorld"
  by (simp_all add: noHashWorld_def)

lemma logWorld_simps [simp]:
  "rejects logWorld e = False"
  "readFile logWorld p = sampleLog"
  "timerMs logWorld = 1000"
  "presignedUrlExpiration logWorld = Some ''7200''"
  "verifyResponse logWorld = verifyResponse sampleWorld"
  by (simp_all add: logWorld_def)

lemma toStringNat_small [simp]:
  "toStringNat (Suc 0) = ''1''" "toStringNat (Suc (Suc 0)) = ''2''"
  by (simp_all add: toStringNat.simps [of "Suc 0"] toStringNat.simps [of "Suc (Suc 0)"] digitChar_def)

lemma partsToAuthorize_sampleWorld [simp]:
  "partsToAuthorize sampleWorld f ''upload-1'' = [Suc 0, Suc (Suc 0)]"
  "partsToAuthorize sampleWorld f ''upload-0'' = [Suc (Suc 0)]"
  by (simp_all add: partsToAuthorize_def eval_nat_numeral)

lemma sample_match [simp]: "regexMatch contributionHashPattern sampleTranscript = Some sampleTranscript"
  by code_simp

lemma sample_no_match: "regexMatch contributionHashPattern ''Contribution without a hash'' = None"
  by code_simp

section \<open>Properties of the chunked upload\<close>

lemma events_uploadParts_gen:
  assumes "\<And>n u c. P (PutChunk n u c)"
    and "\<And>c r. P (TemporaryStoreCurrentContributionUploadedChunkData c r)"
  shows "\<forall>e\<in>set (fst (uploadParts w cs ct cf cid up)). P e"
proof (induction cs arbitrary: up)
  case Nil
  then show ?case by simp
next
  case (Cons c cs)
  show ?case
  proof (cases "partNumber c \<in> set (map PartNumber up)")
    case True
    then show ?thesis using Cons.IH by simp
  next
    case False
    have "\<forall>e\<in>set (fst (andThen (await w (PutChunk (partNumber c) (preSignedUrl c) ct))
        (\<lambda>_. andThen
           (if cf then await w (TemporaryStoreCurrentContributionUploadedChunkData cid (recordOf w c))
            else ret ())
        (\<lambda>_. uploadParts w cs ct cf cid (up @ [recordOf w c]))))). P e"
      by (intro events_andThen) (simp_all add: Cons.IH assms)
    then show ?thesis using False by simp
  qed
qed

lemma events_uploadParts:
  "\<forall>e\<in>set (fst (uploadParts w cs ct cf cid up)). eventStep e = Some UPLOADING"
  by (rule events_uploadParts_gen) simp_all

lemma events_openMultiPartUpload:
  "\<forall>e\<in>set (fst (openMultiPartUpload w b k cid)). eventStep e = Some UPLOADING"
  unfolding openMultiPartUpload_def by (intro events_andThen) simp_all

lemma events_getChunksAndPreSignedUrls:
  "\<forall>e\<in>set (fst (getChunksAndPreSignedUrls w b k lp u ex cid)). eventStep e = Some UPLOADING"
  unfolding getChunksAndPreSignedUrls_def Let_def
  by (cases "partsToAuthorize w lp u = []") (simp_all add: fst_andThen_await)

lemma events_closeMultiPartUpload:
  "\<forall>e\<in>set (fst (closeMultiPartUpload w b k u ps cid)). eventStep e = Some UPLOADING"
  unfolding closeMultiPartUpload_def by simp

lemma events_multiPartUpload:
  "\<forall>e\<in>set (fst (multiPartUpload w b k lp sf cf cid temp)). eventStep e = Some UPLOADING"
proof -
  have A: "\<forall>e\<in>set (fst (andThen (openMultiPartUpload w b k cid)
            (\<lambda>newId. andThen
               (if sf then await w (TemporaryStoreCurrentContributionMultiPartUploadId cid newId)
                else ret ())
            (\<lambda>_. ret (newId, ([]::ETagWithPartNumber list)))))). eventStep e = Some UPLOADING"
    by (intro events_andThen events_openMultiPartUpload) simp_all
  have B: "\<forall>e\<in>set (fst (andThen (getChunksAndPreSignedUrls w b k lp u (presignedUrlExpiration w) cid)
            (\<lambda>cs. andThen (uploadParts w cs (mimeLookup w lp) cf cid a)
               (\<lambda>ps. closeMultiPartUpload w b k u ps cid)))). eventStep e = Some UPLOADING" for u a
    by (intro events_andThen events_getChunksAndPreSignedUrls events_uploadParts
        events_closeMultiPartUpload)
  show ?thesis
    unfolding multiPartUpload_def Let_def
    by (intro events_andThen events_andThen_prod B) (simp_all add: A)
qed

lemma events_multiPartUpload_or:
  "\<forall>e\<in>set (fst (multiPartUpload w b k lp sf cf cid temp)). eventStep e = Some UPLOADING \<or> Q e"
  using events_multiPartUpload [of w b k lp sf cf cid temp] by blast

lemma errors_uploadParts:
  "\<forall>e. snd (uploadParts w cs ct cf cid up) = Inl e \<longrightarrow> e \<noteq> Fatal GENERIC_CONTRIBUTION_HASH_INVALID"
proof (induction cs arbitrary: up)
  case Nil
  then show ?case by simp
next
  case (Cons c cs)
  show ?case
  proof (cases "partNumber c \<in> set (map PartNumber up)")
    case True
    then show ?thesis using Cons.IH by simp
  next
    case False
    have "\<forall>e. snd (andThen (await w (PutChunk (partNumber c) (preSignedUrl c) ct))
        (\<lambda>_. andThen
           (if cf then await w (TemporaryStoreCurrentContributionUploadedChunkData cid (recordOf w c))
            else ret ())
        (\<lambda>_. uploadParts w cs ct cf cid (up @ [recordOf w c])))) = Inl e
        \<longrightarrow> e \<noteq> Fatal GENERIC_CONTRIBUTION_HASH_INVALID"
      by (intro errors_andThen) (simp_all add: Cons.IH snd_await)
    then show ?thesis using False by simp
  qed
qed

lemma errors_getChunksAndPreSignedUrls:
  "\<forall>e. snd (getChunksAndPreSignedUrls w b k lp u ex cid) = Inl e \<longrightarrow> e \<noteq> Fatal GENERIC_CONTRIBUTION_HASH_INVALID"
  unfolding getChunksAndPreSignedUrls_def Let_def
  by (cases "partsToAuthorize w lp u = []") (simp_all add: andThen_def await_def ret_def)

lemma errors_multiPartUpload:
  "\<forall>e. snd (multiPartUpload w b k lp sf cf cid temp) = Inl e \<longrightarrow> e \<noteq> Fatal GENERIC_CONTRIBUTION_HASH_INVALID"
proof -
  have A: "\<forall>e. snd (andThen (openMultiPartUpload w b k cid)
            (\<lambda>newId. andThen
               (if sf then await w (TemporaryStoreCurrentContributionMultiPartUploadId cid newId)
                else ret ())
            (\<lambda>_. ret (newId, ([]::ETagWithPartNumber list))))) = Inl e
            \<longrightarrow> e \<noteq> Fatal GENERIC_CONTRIBUTION_HASH_INVALID"
    unfolding openMultiPartUpload_def
    by (intro errors_andThen) (simp_all add: snd_await)
  have B: "\<forall>e. snd (andThen (getChunksAndPreSignedUrls w b k lp u (presignedUrlExpiration w) cid)
            (\<lambda>cs. andThen (uploadParts w cs (mimeLookup w lp) cf cid a)
               (\<lambda>ps. closeMultiPartUpload w b k u ps cid))) = Inl e
            \<longrightarrow> e \<noteq> Fatal GENERIC_CONTRIBUTION_HASH_INVALID" for u a
    unfolding closeMultiPartUpload_def
    by (intro errors_andThen errors_uploadParts errors_getChunksAndPreSignedUrls) (simp_all add: snd_await)
  have C: "\<forall>e. snd (case x of (u, a) \<Rightarrow>
            andThen (getChunksAndPreSignedUrls w b k lp u (presignedUrlExpiration w) cid)
            (\<lambda>cs. andThen (uploadParts w cs (mimeLookup w lp) cf cid a)
               (\<lambda>ps. closeMultiPartUpload w b k u ps cid))) = Inl e
            \<longrightarrow> e \<noteq> Fatal GENERIC_CONTRIBUTION_HASH_INVALID" for x
    using B by (cases x) simp
  show ?thesis
    unfolding multiPartUpload_def Let_def
    by (intro errors_andThen C) (simp_all add: A showError_def)
qed

text \<open>With every call resolving, the parts loop transmits exactly the parts not yet recorded.\<close>

lemma uploadParts_resolving:
  assumes "\<forall>e. \<not> rejects w e" and "distinct (map partNumber cs)"
  shows "uploadParts w cs ct cf cid up =
           (concat (map (\<lambda>c. PutChunk (partNumber c) (preSignedUrl c) ct
                              # (if cf then [TemporaryStoreCurrentContributionUploadedChunkData cid (recordOf w c)]
                                 else []))
                        (filter (\<lambda>c. partNumber c \<notin> set (map PartNumber up)) cs)),
            Inr (up @ map (recordOf w) (filter (\<lambda>c. partNumber c \<notin> set (map PartNumber up)) cs)))"
  using assms(2)
proof (induction cs arbitrary: up)
  case Nil
  then show ?case by (simp add: ret_def)
next
  case (Cons c cs)
  have d: "distinct (map partNumber cs)" and n: "\<forall>x\<in>set cs. partNumber x \<noteq> partNumber c"
    using Cons.prems by (auto simp: image_iff)
  show ?case
  proof (cases "partNumber c \<in> set (map PartNumber up)")
    case True
    then show ?thesis using Cons.IH [OF d, of up] by simp
  next
    case False
    have same: "filter (\<lambda>x. partNumber x \<notin> set (map PartNumber (up @ [recordOf w c]))) cs
                = filter (\<lambda>x. partNumber x \<notin> set (map PartNumber up)) cs"
      using n by (intro filter_cong) (auto simp: recordOf_def)
    have IH: "uploadParts w cs ct cf cid (up @ [recordOf w c]) =
           (concat (map (\<lambda>c. PutChunk (partNumber c) (preSignedUrl c) ct
                              # (if cf then [TemporaryStoreCurrentContributionUploadedChunkData cid (recordOf w c)]
                                 else []))
                        (filter (\<lambda>c. partNumber c \<notin> set (map PartNumber up)) cs)),
            Inr (up @ recordOf w c # map (recordOf w) (filter (\<lambda>c. partNumber c \<notin> set (map PartNumber up)) cs)))"
      using Cons.IH [OF d, of "up @ [recordOf w c]"] unfolding same by simp
    show ?thesis
      using False assms(1)
      by (simp add: await_resolves IH del: set_map)
  qed
qed

text \<open>The whole upload when the expiration is configured and every call resolves.\<close>

lemma partNumber_chunksOf: "map partNumber (chunksOf w parts) = parts"
  by (simp add: chunksOf_def comp_def)

lemma distinct_partsToAuthorize: "distinct (partsToAuthorize w lp u)"
  unfolding partsToAuthorize_def by (rule distinct_filter) (rule distinct_upt)

lemma getChunksAndPreSignedUrls_resolving:
  assumes "\<forall>e. \<not> rejects w e"
  shows "getChunksAndPreSignedUrls w b k lp u ex cid =
           (if partsToAuthorize w lp u = [] then []
            else [GeneratePreSignedUrlsParts b k u (partsToAuthorize w lp u) ex cid],
            Inr (chunksOf w (partsToAuthorize w lp u)))"
  using assms
  by (simp add: getChunksAndPreSignedUrls_def Let_def await_resolves ret_def chunksOf_def)

lemma multiPartUpload_resolving:
  assumes norej: "\<forall>e. \<not> rejects w e" and cfg: "truthyString (presignedUrlExpiration w)"
    and U: "U = (if startsFromScratch temp then openedUploadId w
                 else (case temp of None \<Rightarrow> [] | Some t \<Rightarrow> (case uploadId t of None \<Rightarrow> [] | Some u \<Rightarrow> u)))"
    and A: "A = (if startsFromScratch temp then [] else (case temp of None \<Rightarrow> [] | Some t \<Rightarrow> chunks t))"
    and todo: "todo = filter (\<lambda>c. partNumber c \<notin> set (map PartNumber A)) (chunksOf w (partsToAuthorize w lp U))"
  shows "multiPartUpload w b k lp sf cf cid temp =
     ((if startsFromScratch temp
       then StartMultiPartUpload b k cid
            # (if sf then [TemporaryStoreCurrentContributionMultiPartUploadId cid (openedUploadId w)] else [])
       else [])
      @ (if partsToAuthorize w lp U = [] then []
         else [GeneratePreSignedUrlsParts b k U (partsToAuthorize w lp U) (presignedUrlExpiration w) cid])
      @ concat (map (\<lambda>c. PutChunk (partNumber c) (preSignedUrl c) (mimeLookup w lp)
                          # (if cf then [TemporaryStoreCurrentContributionUploadedChunkData cid (recordOf w c)]
                             else []))
                    todo)
      @ [CompleteMultiPartUpload b k U (A @ map (recordOf w) todo) cid],
      Inr ())"
proof -
  have d: "distinct (map partNumber (chunksOf w (partsToAuthorize w lp U)))"
    by (simp only: partNumber_chunksOf distinct_partsToAuthorize)
  have up: "uploadParts w (chunksOf w (partsToAuthorize w lp U)) (mimeLookup w lp) cf cid A =
           (concat (map (\<lambda>c. PutChunk (partNumber c) (preSignedUrl c) (mimeLookup w lp)
                              # (if cf then [TemporaryStoreCurrentContributionUploadedChunkData cid (recordOf w c)]
                                 else []))
                        todo),
            Inr (A @ map (recordOf w) todo))"
    unfolding todo by (rule uploadParts_resolving [OF norej d])
  have tail: "andThen (getChunksAndPreSignedUrls w b k lp U (presignedUrlExpiration w) cid)
            (\<lambda>cs. andThen (uploadParts w cs (mimeLookup w lp) cf cid A)
               (\<lambda>ps. closeMultiPartUpload w b k U ps cid))
        = ((if partsToAuthorize w lp U = [] then []
            else [GeneratePreSignedUrlsParts b k U (partsToAuthorize w lp U) (presignedUrlExpiration w) cid])
           @ concat (map (\<lambda>c. PutChunk (partNumber c) (preSignedUrl c) (mimeLookup w lp)
                          # (if cf then [TemporaryStoreCurrentContributionUploadedChunkData cid (recordOf w c)]
                             else []))
                    todo)
           @ [CompleteMultiPartUpload b k U (A @ map (recordOf w) todo) cid],
           Inr ())"
    using norej
    by (simp add: getChunksAndPreSignedUrls_resolving await_resolves up closeMultiPartUpload_def)
  show ?thesis
  proof (cases "startsFromScratch temp")
    case True
    then show ?thesis
      using norej cfg tail U A
      by (simp add: multiPartUpload_def Let_def openMultiPartUpload_def await_resolves)
  next
    case False
    have pair: "(case temp of None \<Rightarrow> ([], [])
                 | Some t \<Rightarrow> (case uploadId t of None \<Rightarrow> [] | Some u \<Rightarrow> u, chunks t)) = (U, A)"
      using False U A by (simp split: option.splits)
    show ?thesis
      using False cfg by (simp add: multiPartUpload_def Let_def pair tail)
  qed
qed

lemma multiPartUpload_resolving_shape:
  assumes "\<forall>e. \<not> rejects w e" and "truthyString (presignedUrlExpiration w)"
  shows "\<exists>u. multiPartUpload w b k lp sf cf cid temp = (u, Inr ()) \<and> u \<noteq> []
             \<and> (\<forall>e\<in>set u. eventStep e = Some UPLOADING)"
proof -
  obtain u where u: "multiPartUpload w b k lp sf cf cid temp = (u, Inr ())" and "u \<noteq> []"
    using multiPartUpload_resolving [OF assms refl refl refl, where temp = temp and lp = lp
            and b = b and k = k and sf = sf and cf = cf and cid = cid]
    by simp
  moreover have "\<forall>e\<in>set u. eventStep e = Some UPLOADING"
    using events_multiPartUpload [of w b k lp sf cf cid temp] u by simp
  ultimately show ?thesis by blast
qed

lemma filter_isPutChunk_parts:
  "filter isPutChunk
     (concat (map (\<lambda>c. PutChunk (partNumber c) (preSignedUrl c) ct
                        # (if cf then [TemporaryStoreCurrentContributionUploadedChunkData cid (recordOf w c)]
                           else [])) cs))
   = map (\<lambda>c. PutChunk (partNumber c) (preSignedUrl c) ct) cs"
  by (induction cs) simp_all

lemma filter_chunksOf:
  "filter (\<lambda>c. partNumber c \<notin> S) (chunksOf w parts) = chunksOf w (filter (\<lambda>i. i \<notin> S) parts)"
  by (simp add: chunksOf_def filter_map comp_def)

lemma length_unrecorded:
  assumes "distinct ks" and "set ks \<subseteq> {1..n}"
  shows "length (filter (\<lambda>i. i \<notin> set ks) [1..<Suc n]) = n - length ks"
proof -
  define xs where "xs = [1..<Suc n]"
  have xs: "distinct xs" "set xs = {1..n}" "length xs = n"
    by (auto simp: xs_def simp del: upt_Suc)
  have "length (filter (\<lambda>i. i \<in> set ks) xs) = card ({i. i \<in> set ks} \<inter> set xs)"
    using xs(1) by (rule distinct_length_filter)
  also have "{i. i \<in> set ks} \<inter> set xs = set ks"
    using assms(2) xs(2) by auto
  also have "card (set ks) = length ks"
    using assms(1) by (rule distinct_card)
  finally have rec: "length (filter (\<lambda>i. i \<in> set ks) xs) = length ks" .
  have "length (filter (\<lambda>i. i \<in> set ks) xs) + length (filter (\<lambda>i. \<not> i \<in> set ks) xs) = length xs"
    by (rule sum_length_filter_compl)
  then have "length (filter (\<lambda>i. i \<notin> set ks) xs) = n - length ks"
    using rec xs(3) by simp
  then show ?thesis by (simp only: xs_def)
qed

lemma all_parts_once:
  assumes "distinct ks" and "set ks \<subseteq> {1..n}" and "map PartNumber A = ks"
    and "map PartNumber B = filter (\<lambda>i. i \<notin> set ks) [1..<Suc n]"
  shows "distinct (map PartNumber (A @ B))" and "set (map PartNumber (A @ B)) = {1..n}"
proof -
  define xs where "xs = [1..<Suc n]"
  have xs: "distinct xs" "set xs = {1..n}"
    by (simp_all only: xs_def distinct_upt set_upt atLeastLessThanSuc_atLeastAtMost)
  have B: "map PartNumber B = filter (\<lambda>i. i \<notin> set ks) xs"
    using assms(4) by (simp only: xs_def)
  have dB: "distinct (map PartNumber B)" unfolding B using xs(1) by (rule distinct_filter)
  have sB: "set (map PartNumber B) = {1..n} - set ks" unfolding B set_filter xs(2) by blast
  have sA: "set (map PartNumber A) = set ks" and dA: "distinct (map PartNumber A)"
    using assms(1,3) by simp_all
  have "set (map PartNumber A) \<inter> set (map PartNumber B) = {}"
    unfolding sA sB by blast
  then show "distinct (map PartNumber (A @ B))"
    using dA dB by (simp only: map_append distinct_append)
  have "set (map PartNumber A) \<union> set (map PartNumber B) = {1..n}"
    unfolding sA sB using assms(2) by blast
  then show "set (map PartNumber (A @ B)) = {1..n}"
    by (simp only: map_append set_append)
qed

lemma first_parts_then_rest:
  assumes "K \<le> n"
  shows "[1..<Suc K] @ [Suc K..<Suc n] = [1..<Suc n]"
    and "filter (\<lambda>i. i \<notin> set [1..<Suc K]) [1..<Suc n] = [Suc K..<Suc n]"
proof -
  have "[1..<Suc K + (n - K)] = [1..<Suc K] @ [Suc K..<Suc K + (n - K)]"
    by (rule upt_add_eq_append) simp
  then show split: "[1..<Suc K] @ [Suc K..<Suc n] = [1..<Suc n]"
    using assms by simp
  have "filter (\<lambda>i. i \<notin> set [1..<Suc K]) ([1..<Suc K] @ [Suc K..<Suc n]) = [Suc K..<Suc n]"
    by (simp only: filter_append) (simp add: filter_empty_conv filter_id_conv del: upt_Suc)
  then show "filter (\<lambda>i. i \<notin> set [1..<Suc K]) [1..<Suc n] = [Suc K..<Suc n]"
    by (simp only: split)
qed

text \<open>The upload behind its configuration check, for a fresh and for a resumed session.\<close>

lemma multiPartUpload_fresh:
  assumes "truthyString (presignedUrlExpiration w)" and "startsFromScratch temp"
  shows "multiPartUpload w b k lp sf cf cid temp =
           andThen (await w (StartMultiPartUpload b k cid))
             (\<lambda>_. andThen (if sf then await w (TemporaryStoreCurrentContributionMultiPartUploadId cid (openedUploadId w))
                            else ret ())
             (\<lambda>_. andThen (getChunksAndPreSignedUrls w b k lp (openedUploadId w) (presignedUrlExpiration w) cid)
             (\<lambda>cs. andThen (uploadParts w cs (mimeLookup w lp) cf cid [])
             (\<lambda>ps. closeMultiPartUpload w b k (openedUploadId w) ps cid))))"
  using assms by (simp add: multiPartUpload_def Let_def openMultiPartUpload_def andThen_assoc)

lemma multiPartUpload_resumed:
  assumes "truthyString (presignedUrlExpiration w)" and "temp = Some t" and "uploadId t = Some u"
    and "u \<noteq> []"
  shows "multiPartUpload w b k lp sf cf cid temp =
           andThen (getChunksAndPreSignedUrls w b k lp u (presignedUrlExpiration w) cid)
             (\<lambda>cs. andThen (uploadParts w cs (mimeLookup w lp) cf cid (chunks t))
             (\<lambda>ps. closeMultiPartUpload w b k u ps cid))"
  using assms by (simp add: multiPartUpload_def Let_def startsFromScratch_def truthyString_def)

lemma not_startsFromScratch:
  "\<not> startsFromScratch temp \<Longrightarrow> \<exists>t u. temp = Some t \<and> uploadId t = Some u \<and> u \<noteq> []"
  by (auto simp: startsFromScratch_def truthyString_def split: option.splits)

lemma transfer_neither_starts_nor_stores_id:
  "\<forall>e\<in>set (fst (andThen (getChunksAndPreSignedUrls w b k lp u ex cid)
             (\<lambda>cs. andThen (uploadParts w cs ct cf cid a)
             (\<lambda>ps. closeMultiPartUpload w b k u ps cid)))). \<not> isStartUpload e \<and> \<not> isStoreUploadId e"
proof -
  have "\<forall>e\<in>set (fst (getChunksAndPreSignedUrls w b k lp u ex cid)). \<not> isStartUpload e \<and> \<not> isStoreUploadId e"
    unfolding getChunksAndPreSignedUrls_def Let_def
    by (cases "partsToAuthorize w lp u = []") (simp_all add: fst_andThen_await)
  then show ?thesis
    unfolding closeMultiPartUpload_def
    by (intro events_andThen events_uploadParts_gen) simp_all
qed

text \<open>
  C4 (amended). With the expiration configured, the upload opens a new transfer session if and
  only if no session is supplied or the supplied one lacks an upload id. Having opened one,
  it stores the new upload id in the very next call when the store callable was supplied and
  never stores it when the callable is absent. Otherwise it opens nothing, stores no id, and
  runs authorization, transmission and finalization on the stored upload id and chunk list.
\<close>

theorem C4_upload_session:
  assumes cfg: "truthyString (presignedUrlExpiration w)"
  shows "((filter isStartUpload (fst (multiPartUpload w b k lp sf cf cid temp)) \<noteq> []) = startsFromScratch temp)
    \<and> (startsFromScratch temp \<longrightarrow>
          hd (fst (multiPartUpload w b k lp sf cf cid temp)) = StartMultiPartUpload b k cid
          \<and> (sf \<and> \<not> rejects w (StartMultiPartUpload b k cid) \<longrightarrow>
               take 2 (fst (multiPartUpload w b k lp sf cf cid temp))
               = [StartMultiPartUpload b k cid,
                  TemporaryStoreCurrentContributionMultiPartUploadId cid (openedUploadId w)])
          \<and> (\<not> sf \<longrightarrow> filter isStoreUploadId (fst (multiPartUpload w b k lp sf cf cid temp)) = []))
    \<and> (\<not> startsFromScratch temp \<longrightarrow>
          filter isStoreUploadId (fst (multiPartUpload w b k lp sf cf cid temp)) = []
          \<and> (\<exists>t u. temp = Some t \<and> uploadId t = Some u
                \<and> multiPartUpload w b k lp sf cf cid temp =
                    andThen (getChunksAndPreSignedUrls w b k lp u (presignedUrlExpiration w) cid)
                      (\<lambda>cs. andThen (uploadParts w cs (mimeLookup w lp) cf cid (chunks t))
                      (\<lambda>ps. closeMultiPartUpload w b k u ps cid))))"
proof (cases "startsFromScratch temp")
  case True
  note eq = multiPartUpload_fresh [OF cfg True, of b k lp sf cf cid]
  have h: "hd (fst (multiPartUpload w b k lp sf cf cid temp)) = StartMultiPartUpload b k cid"
    by (simp add: eq fst_andThen_await)
  have s: "filter isStartUpload (fst (multiPartUpload w b k lp sf cf cid temp)) \<noteq> []"
    by (simp add: eq fst_andThen_await)
  have p: "take 2 (fst (multiPartUpload w b k lp sf cf cid temp))
           = [StartMultiPartUpload b k cid,
              TemporaryStoreCurrentContributionMultiPartUploadId cid (openedUploadId w)]"
    if "sf" "\<not> rejects w (StartMultiPartUpload b k cid)"
    using that unfolding eq by (simp add: fst_andThen_await numeral_2_eq_2)
  have n: "filter isStoreUploadId (fst (multiPartUpload w b k lp sf cf cid temp)) = []" if "\<not> sf"
  proof -
    have "\<forall>e\<in>set (fst (andThen (getChunksAndPreSignedUrls w b k lp (openedUploadId w) (presignedUrlExpiration w) cid)
             (\<lambda>cs. andThen (uploadParts w cs (mimeLookup w lp) cf cid [])
             (\<lambda>ps. closeMultiPartUpload w b k (openedUploadId w) ps cid)))). \<not> isStoreUploadId e"
      using transfer_neither_starts_nor_stores_id by blast
    then show ?thesis using that unfolding eq by (simp add: fst_andThen_await filter_empty_conv)
  qed
  show ?thesis using True h s p n by simp
next
  case False
  obtain t u where t: "temp = Some t" "uploadId t = Some u" "u \<noteq> []"
    using not_startsFromScratch [OF False] by blast
  note eq = multiPartUpload_resumed [OF cfg t, of b k lp sf cf cid]
  have "\<forall>e\<in>set (fst (multiPartUpload w b k lp sf cf cid temp)). \<not> isStartUpload e \<and> \<not> isStoreUploadId e"
    unfolding eq by (rule transfer_neither_starts_nor_stores_id)
  then have "filter isStartUpload (fst (multiPartUpload w b k lp sf cf cid temp)) = []"
    and "filter isStoreUploadId (fst (multiPartUpload w b k lp sf cf cid temp)) = []"
    by (simp_all add: filter_empty_conv)
  then show ?thesis using False t(1,2) eq by simp
qed

theorem C4_upload_session_witness:
  "truthyString (presignedUrlExpiration sampleWorld)
   \<and> startsFromScratch None
   \<and> \<not> rejects sampleWorld (StartMultiPartUpload ''bucket'' ''key'' (Some ''cer-1''))
   \<and> take 2 (fst (multiPartUpload sampleWorld ''bucket'' ''key'' ''file'' True True (Some ''cer-1'') None))
       = [StartMultiPartUpload ''bucket'' ''key'' (Some ''cer-1''),
          TemporaryStoreCurrentContributionMultiPartUploadId (Some ''cer-1'') ''upload-1'']
   \<and> \<not> startsFromScratch (Some sampleSession)
   \<and> filter isStartUpload (fst (multiPartUpload sampleWorld ''bucket'' ''key'' ''file'' True True
        (Some ''cer-1'') (Some sampleSession))) = []
   \<and> filter isStoreUploadId (fst (multiPartUpload sampleWorld ''bucket'' ''key'' ''file'' True True
        (Some ''cer-1'') (Some sampleSession))) = []"
proof -
  have h: "truthyString (presignedUrlExpiration sampleWorld)" by (simp add: truthyString_def)
  have f: "startsFromScratch None" by (simp add: startsFromScratch_def)
  have r: "\<not> startsFromScratch (Some sampleSession)"
    by (simp add: startsFromScratch_def truthyString_def sampleSession_def)
  show ?thesis
    using h f r
      C4_upload_session [OF h, where b = "''bucket''" and k = "''key''" and cid = "Some ''cer-1''"
        and lp = "''file''" and sf = True and cf = True and temp = None]
      C4_upload_session [OF h, where b = "''bucket''" and k = "''key''" and cid = "Some ''cer-1''"
        and lp = "''file''" and sf = True and cf = True and temp = "Some sampleSession"]
    by simp
qed

text \<open>
  The claim as stated fails when the store callable is absent, as in the finalize call of
  makeContribution: no session is supplied, a session is opened, and its id is not persisted.
\<close>

theorem C4_counterexample:
  "startsFromScratch None
   \<and> multiPartUpload sampleWorld ''bucket'' ''key'' ''file'' False False None None =
     ([StartMultiPartUpload ''bucket'' ''key'' None,
       GeneratePreSignedUrlsParts ''bucket'' ''key'' ''upload-1'' [1, 2] (Some ''7200'') None,
       PutChunk 1 ''url-1'' ''application/octet-stream'',
       PutChunk 2 ''url-2'' ''application/octet-stream'',
       CompleteMultiPartUpload ''bucket'' ''key'' ''upload-1''
         [\<lparr>ETag = ''etag-1'', PartNumber = 1\<rparr>, \<lparr>ETag = ''etag-2'', PartNumber = 2\<rparr>] None],
      Inr ())"
proof -
  have n: "startsFromScratch None"
    by (simp add: startsFromScratch_def)
  have "\<forall>e. \<not> rejects sampleWorld e" and "truthyString (presignedUrlExpiration sampleWorld)"
    by (simp_all add: truthyString_def)
  from multiPartUpload_resolving [OF this refl refl refl, where temp = None and lp = "''file''"
      and b = "''bucket''" and k = "''key''" and sf = False and cf = False and cid = None]
  show ?thesis
    using n by (simp add: recordOf_def chunksOf_def eval_nat_numeral)
qed

text \<open>
  What an interrupted upload leaves behind. Whatever calls reject, the transmission records
  the parts in ascending order right after the ones the session holds: a fresh upload
  leaves a session that records the first K' parts, and resuming a session that records the
  first K parts leaves one that records the first K' parts, K \<le> K' \<le> N. So every session
  an upload can be resumed from records the first K parts in order.
\<close>

lemma chunkRecords_without_callable:
  "concat (map chunkRecordOf (filter (\<lambda>e. \<not> rejects w e) (fst (uploadParts w cs ct False cid up)))) = []"
proof -
  have "\<forall>e\<in>set (fst (uploadParts w cs ct False cid up)). chunkRecordOf e = []"
  proof (induction cs arbitrary: up)
    case Nil
    then show ?case by simp
  next
    case (Cons c cs)
    show ?case
    proof (cases "partNumber c \<in> set (map PartNumber up)")
      case True
      then show ?thesis using Cons.IH by simp
    next
      case False
      have "\<forall>e\<in>set (fst (andThen (await w (PutChunk (partNumber c) (preSignedUrl c) ct))
          (\<lambda>_. andThen (ret ())
          (\<lambda>_. uploadParts w cs ct False cid (up @ [recordOf w c]))))). chunkRecordOf e = []"
        by (intro events_andThen) (simp_all add: Cons.IH)
      then show ?thesis using False by simp
    qed
  qed
  then show ?thesis by simp
qed

lemma uploadParts_records_in_order:
  assumes "map partNumber cs = [Suc j..<Suc n]" and "map PartNumber up = [1..<Suc j]" and "j \<le> n"
  shows "\<exists>j'. j \<le> j' \<and> j' \<le> n
           \<and> map PartNumber (sessionAfter w up (fst (uploadParts w cs ct True cid up))) = [1..<Suc j']"
  using assms
proof (induction cs arbitrary: up j)
  case Nil
  then show ?case by (auto simp: sessionAfter_def)
next
  case (Cons c cs)
  have jn: "j < n"
    using Cons.prems(1,3) by (cases "j = n") simp_all
  then have unfold: "[Suc j..<Suc n] = Suc j # [Suc (Suc j)..<Suc n]"
    by (simp add: upt_conv_Cons del: upt_Suc)
  have pc: "partNumber c = Suc j" and rest: "map partNumber cs = [Suc (Suc j)..<Suc n]"
    using Cons.prems(1) unfolding unfold by simp_all
  have new: "partNumber c \<notin> set (map PartNumber up)"
    unfolding Cons.prems(2) pc by simp
  have up': "map PartNumber (up @ [recordOf w c]) = [1..<Suc (Suc j)]"
    using Cons.prems(2) pc by (simp add: recordOf_def)
  obtain j' where j': "Suc j \<le> j'" "j' \<le> n"
      "map PartNumber (sessionAfter w (up @ [recordOf w c])
         (fst (uploadParts w cs ct True cid (up @ [recordOf w c])))) = [1..<Suc j']"
    using Cons.IH [OF rest up'] jn by auto
  let ?put = "PutChunk (partNumber c) (preSignedUrl c) ct"
  let ?store = "TemporaryStoreCurrentContributionUploadedChunkData cid (recordOf w c)"
  have tr: "fst (uploadParts w (c # cs) ct True cid up) =
      ?put # (if rejects w ?put then []
              else ?store # (if rejects w ?store then []
                             else fst (uploadParts w cs ct True cid (up @ [recordOf w c]))))"
    using new by (simp add: fst_andThen_await)
  show ?case
  proof (cases "rejects w ?put \<or> rejects w ?store")
    case True
    then have "sessionAfter w up (fst (uploadParts w (c # cs) ct True cid up)) = up"
      unfolding tr by (auto simp: sessionAfter_def)
    then show ?thesis using Cons.prems(2,3) by auto
  next
    case False
    then have "sessionAfter w up (fst (uploadParts w (c # cs) ct True cid up))
               = sessionAfter w (up @ [recordOf w c]) (fst (uploadParts w cs ct True cid (up @ [recordOf w c])))"
      unfolding tr by (simp add: sessionAfter_def)
    then show ?thesis using j' by (intro exI [of _ j']) simp
  qed
qed

lemma transfer_records_first_parts:
  assumes first: "map PartNumber A = [1..<Suc K]" and KN: "K \<le> numberOfParts w lp"
    and held: "recordedParts w u = map PartNumber A"
  shows "\<exists>K'. K \<le> K' \<and> K' \<le> numberOfParts w lp
           \<and> map PartNumber (sessionAfter w A
                 (fst (andThen (getChunksAndPreSignedUrls w b k lp u ex cid)
                        (\<lambda>cs. andThen (uploadParts w cs ct cf cid A)
                        (\<lambda>ps. closeMultiPartUpload w b k u ps cid)))))
               = [1..<Suc K']"
proof -
  let ?n = "numberOfParts w lp"
  let ?gen = "GeneratePreSignedUrlsParts b k u [Suc K..<Suc ?n] ex cid"
  let ?cs = "chunksOf w [Suc K..<Suc ?n]"
  let ?up = "uploadParts w ?cs ct cf cid A"
  let ?transfer = "andThen (getChunksAndPreSignedUrls w b k lp u ex cid)
               (\<lambda>cs. andThen (uploadParts w cs ct cf cid A) (\<lambda>ps. closeMultiPartUpload w b k u ps cid))"
  have parts: "partsToAuthorize w lp u = [Suc K..<Suc ?n]"
    unfolding partsToAuthorize_def held first by (rule first_parts_then_rest(2) [OF KN])
  have close: "concat (map chunkRecordOf (filter (\<lambda>e. \<not> rejects w e) (fst (closeMultiPartUpload w b k u ps cid)))) = []"
    for ps
    by (simp add: closeMultiPartUpload_def)
  have tail: "sessionAfter w A (fst (andThen ?up (\<lambda>ps. closeMultiPartUpload w b k u ps cid)))
              = sessionAfter w A (fst ?up)"
  proof (cases "snd ?up")
    case (Inl e)
    then show ?thesis by (simp add: andThen_Inl)
  next
    case (Inr ps)
    then show ?thesis by (simp add: andThen_Inr sessionAfter_def close)
  qed
  have inner: "\<exists>K'. K \<le> K' \<and> K' \<le> ?n \<and> map PartNumber (sessionAfter w A (fst ?up)) = [1..<Suc K']"
  proof (cases cf)
    case True
    then have cfT: "cf = True" by simp
    show ?thesis
      unfolding cfT
      by (rule uploadParts_records_in_order) (simp_all only: partNumber_chunksOf first KN)
  next
    case False
    then have "sessionAfter w A (fst ?up) = A"
      by (simp add: sessionAfter_def chunkRecords_without_callable)
    then show ?thesis using first KN by auto
  qed
  have "sessionAfter w A (fst ?transfer) = A \<or> sessionAfter w A (fst ?transfer) = sessionAfter w A (fst ?up)"
  proof (cases "[Suc K..<Suc ?n] = []")
    case True
    then have "?transfer = andThen ?up (\<lambda>ps. closeMultiPartUpload w b k u ps cid)"
      by (simp add: getChunksAndPreSignedUrls_def parts Let_def chunksOf_def)
    then show ?thesis using tail by simp
  next
    case False
    then have "?transfer = andThen (await w ?gen) (\<lambda>_. andThen ?up (\<lambda>ps. closeMultiPartUpload w b k u ps cid))"
      by (simp add: getChunksAndPreSignedUrls_def parts Let_def andThen_assoc)
    then have "sessionAfter w A (fst ?transfer)
          = (if rejects w ?gen then A else sessionAfter w A (fst ?up))"
      using tail by (simp add: fst_andThen_await sessionAfter_def)
    then show ?thesis by (cases "rejects w ?gen") simp_all
  qed
  then show ?thesis
  proof
    assume "sessionAfter w A (fst ?transfer) = A"
    then show ?thesis using first KN by auto
  next
    assume "sessionAfter w A (fst ?transfer) = sessionAfter w A (fst ?up)"
    then show ?thesis using inner by simp
  qed
qed

lemma resumed_upload_records_first_parts:
  assumes first: "map PartNumber (chunks t) = [1..<Suc K]" and KN: "K \<le> numberOfParts w lp"
    and held: "recordedParts w u = map PartNumber (chunks t)"
    and cfg: "truthyString (presignedUrlExpiration w)"
    and uid: "uploadId t = Some u" "u \<noteq> []"
  shows "\<exists>K'. K \<le> K' \<and> K' \<le> numberOfParts w lp
           \<and> map PartNumber (sessionAfter w (chunks t) (fst (multiPartUpload w b k lp sf cf cid (Some t))))
               = [1..<Suc K']"
  unfolding multiPartUpload_resumed [OF cfg refl uid]
  by (rule transfer_records_first_parts [OF first KN held])

lemma fresh_upload_records_first_parts:
  assumes cfg: "truthyString (presignedUrlExpiration w)" and fresh: "startsFromScratch temp"
    and held: "recordedParts w (openedUploadId w) = []"
  shows "\<exists>K'. K' \<le> numberOfParts w lp
           \<and> map PartNumber (sessionAfter w [] (fst (multiPartUpload w b k lp sf cf cid temp))) = [1..<Suc K']"
proof -
  let ?start = "StartMultiPartUpload b k cid"
  let ?store = "TemporaryStoreCurrentContributionMultiPartUploadId cid (openedUploadId w)"
  let ?transfer = "andThen (getChunksAndPreSignedUrls w b k lp (openedUploadId w) (presignedUrlExpiration w) cid)
             (\<lambda>cs. andThen (uploadParts w cs (mimeLookup w lp) cf cid [])
             (\<lambda>ps. closeMultiPartUpload w b k (openedUploadId w) ps cid))"
  obtain K' where K': "K' \<le> numberOfParts w lp"
      "map PartNumber (sessionAfter w [] (fst ?transfer)) = [1..<Suc K']"
    using transfer_records_first_parts [of "[]" 0 w lp "openedUploadId w" b k "presignedUrlExpiration w" cid
        "mimeLookup w lp" cf] held
    by auto
  have "sessionAfter w [] (fst (multiPartUpload w b k lp sf cf cid temp)) = []
        \<or> sessionAfter w [] (fst (multiPartUpload w b k lp sf cf cid temp)) = sessionAfter w [] (fst ?transfer)"
    unfolding multiPartUpload_fresh [OF cfg fresh]
    by (cases sf) (simp_all add: fst_andThen_await sessionAfter_def)
  then show ?thesis
  proof
    assume "sessionAfter w [] (fst (multiPartUpload w b k lp sf cf cid temp)) = []"
    then show ?thesis by (intro exI [of _ 0]) simp
  next
    assume "sessionAfter w [] (fst (multiPartUpload w b k lp sf cf cid temp)) = sessionAfter w [] (fst ?transfer)"
    then show ?thesis using K' by auto
  qed
qed



section \<open>Properties of the four blocks\<close>

lemma isStoreHash_step: "isStoreHash e \<Longrightarrow> eventStep e = Some COMPUTING"
  by (cases e) simp_all

lemma isProgressRequest_step: "isProgressRequest e = (eventStep e = None)"
  by (cases e) simp_all

lemma events_verifyBlock:
  "\<forall>e\<in>set (fst (verifyBlock w cer cir gh)). eventStep e = Some VERIFYING"
  unfolding verifyBlock_def computeVerification_def
  by (intro events_andThen) (simp_all split: option.splits)

lemma events_downloadBlock:
  "\<forall>e\<in>set (fst (downloadBlock w cer cir fin)). eventStep e = Some DOWNLOADING \<or> (\<not> fin \<and> isProgressRequest e)"
  unfolding downloadBlock_def downloadContribution_def Let_def
  by (intro events_andThen) simp_all

lemma events_computeBlock:
  "\<forall>e\<in>set (fst (computeBlock w cer cir ent gh fin)). eventStep e = Some COMPUTING \<or> (\<not> fin \<and> isProgressRequest e)"
  unfolding computeBlock_def computeContribution_def Let_def
  by (intro events_andThen) simp_all

lemma events_uploadBlock:
  "\<forall>e\<in>set (fst (uploadBlock w cer cir fin npd)). eventStep e = Some UPLOADING \<or> (\<not> fin \<and> isProgressRequest e)"
  unfolding uploadBlock_def Let_def
  by (cases fin; intro events_andThen) (simp_all add: events_multiPartUpload events_multiPartUpload_or)

lemma errors_uploadBlock:
  "\<forall>e. snd (uploadBlock w cer cir fin npd) = Inl e \<longrightarrow> e \<noteq> Fatal GENERIC_CONTRIBUTION_HASH_INVALID"
  unfolding uploadBlock_def Let_def makeContributionStepProgress_def
  by (intro errors_andThen) (simp_all add: errors_multiPartUpload snd_await)

lemma errors_verifyBlock:
  "\<forall>e. snd (verifyBlock w cer cir gh) = Inl e \<longrightarrow> e \<noteq> Fatal GENERIC_CONTRIBUTION_HASH_INVALID"
  unfolding verifyBlock_def computeVerification_def
  by (intro errors_andThen) (simp_all add: snd_await split: option.splits)

lemma blocks_not_verifying:
  "\<forall>e\<in>set (fst (downloadBlock w cer cir fin)). eventStep e \<noteq> Some VERIFYING"
  "\<forall>e\<in>set (fst (computeBlock w cer cir ent gh fin)). eventStep e \<noteq> Some VERIFYING"
  "\<forall>e\<in>set (fst (uploadBlock w cer cir fin npd)). eventStep e \<noteq> Some VERIFYING"
proof -
  show "\<forall>e\<in>set (fst (downloadBlock w cer cir fin)). eventStep e \<noteq> Some VERIFYING"
    using events_downloadBlock [of w cer cir fin] by (auto simp: isProgressRequest_step)
  show "\<forall>e\<in>set (fst (computeBlock w cer cir ent gh fin)). eventStep e \<noteq> Some VERIFYING"
    using events_computeBlock [of w cer cir ent gh fin] by (auto simp: isProgressRequest_step)
  show "\<forall>e\<in>set (fst (uploadBlock w cer cir fin npd)). eventStep e \<noteq> Some VERIFYING"
    using events_uploadBlock [of w cer cir fin npd] by (auto simp: isProgressRequest_step)
qed

lemma blocks_no_progress_when_finalizing:
  "\<forall>e\<in>set (fst (downloadBlock w cer cir True)). \<not> isProgressRequest e"
  "\<forall>e\<in>set (fst (computeBlock w cer cir ent gh True)). \<not> isProgressRequest e"
  "\<forall>e\<in>set (fst (uploadBlock w cer cir True npd)). \<not> isProgressRequest e"
  "\<forall>e\<in>set (fst (verifyBlock w cer cir gh)). \<not> isProgressRequest e"
proof -
  show "\<forall>e\<in>set (fst (downloadBlock w cer cir True)). \<not> isProgressRequest e"
    using events_downloadBlock [of w cer cir True] by (auto simp: isProgressRequest_step)
  show "\<forall>e\<in>set (fst (computeBlock w cer cir ent gh True)). \<not> isProgressRequest e"
    using events_computeBlock [of w cer cir ent gh True] by (auto simp: isProgressRequest_step)
  show "\<forall>e\<in>set (fst (uploadBlock w cer cir True npd)). \<not> isProgressRequest e"
    using events_uploadBlock [of w cer cir True npd] by (auto simp: isProgressRequest_step)
  show "\<forall>e\<in>set (fst (verifyBlock w cer cir gh)). \<not> isProgressRequest e"
    using events_verifyBlock [of w cer cir gh] by (auto simp: isProgressRequest_step)
qed

lemma downloadBlock_resolving:
  assumes "\<forall>e. \<not> rejects w e"
  shows "downloadBlock w cer cir fin =
     (DownloadLocalFileFromBucket (getBucketName w (ceremonyPrefix cer))
        (''circuits/'' @ circuitPrefix cir @ ''/contributions/'' @ circuitPrefix cir @ ''_''
           @ formatZkeyIndex (completedContributions cir) @ ''.zkey'')
        ((if fin then finalZkeysPath (paths w) else contributionsPath (paths w)) @ ''/'' @ circuitPrefix cir
           @ ''_'' @ formatZkeyIndex (completedContributions cir) @ ''.zkey'')
      # (if fin then [] else [ProgressToNextContributionStep (ceremonyId cer)]),
      Inr ())"
  using assms
  by (simp add: downloadBlock_def downloadContribution_def makeContributionStepProgress_def
      Let_def await_resolves ret_def)

lemma computeBlock_eq:
  "computeBlock w cer cir ent gh fin =
     andThen (await w (zkeyCall w cir ent gh fin))
       (\<lambda>_. andThen
          (if regexMatch contributionHashPattern (readFile w (contributionTranscriptLocalPath w cir gh fin)) = None
           then showError GENERIC_CONTRIBUTION_HASH_INVALID True else ret ())
       (\<lambda>_. andThen
          (await w (PermanentlyStoreCurrentContributionTimeAndHash (ceremonyId cer) (timerMs w)
             (map_option (replaceFirst [CHR 0x0A, CHR 0x09, CHR 0x09] [])
                (regexMatch contributionHashPattern (readFile w (contributionTranscriptLocalPath w cir gh fin))))))
       (\<lambda>_. if \<not> fin then makeContributionStepProgress w (ceremonyId cer) True ''upload'' else ret ())))"
  by (simp add: computeBlock_def computeContribution_def zkeyCall_def contributionTranscriptLocalPath_def Let_def)

lemma computeBlock_no_hash:
  assumes "\<not> rejects w (zkeyCall w cir ent gh fin)"
    and "regexMatch contributionHashPattern (readFile w (contributionTranscriptLocalPath w cir gh fin)) = None"
  shows "computeBlock w cer cir ent gh fin =
           ([zkeyCall w cir ent gh fin], Inl (Fatal GENERIC_CONTRIBUTION_HASH_INVALID))"
  using assms by (simp add: computeBlock_eq await_resolves)

lemma computeBlock_resolving:
  assumes "\<forall>e. \<not> rejects w e"
    and "regexMatch contributionHashPattern (readFile w (contributionTranscriptLocalPath w cir gh fin)) = Some m"
  shows "computeBlock w cer cir ent gh fin =
           ([zkeyCall w cir ent gh fin,
             PermanentlyStoreCurrentContributionTimeAndHash (ceremonyId cer) (timerMs w)
               (Some (replaceFirst [CHR 0x0A, CHR 0x09, CHR 0x09] [] m))]
            @ (if fin then [] else [ProgressToNextContributionStep (ceremonyId cer)]),
            Inr ())"
  using assms by (simp add: computeBlock_eq await_resolves makeContributionStepProgress_def ret_def)

lemma uploadBlock_resolving:
  assumes "\<forall>e. \<not> rejects w e" and "truthyString (presignedUrlExpiration w)"
  shows "\<exists>u. uploadBlock w cer cir fin npd
               = (u @ (if fin then [] else [ProgressToNextContributionStep (ceremonyId cer)]), Inr ())
             \<and> u \<noteq> [] \<and> (\<forall>e\<in>set u. eventStep e = Some UPLOADING)"
proof (cases fin)
  case True
  obtain u where "multiPartUpload w (getBucketName w (ceremonyPrefix cer))
      (''circuits/'' @ circuitPrefix cir @ ''/contributions/'' @ circuitPrefix cir @ ''_'' @ ''final'' @ ''.zkey'')
      (finalZkeysPath (paths w) @ ''/'' @ circuitPrefix cir @ ''_'' @ ''final'' @ ''.zkey'')
      False False None None = (u, Inr ())" "u \<noteq> []" "\<forall>e\<in>set u. eventStep e = Some UPLOADING"
    using multiPartUpload_resolving_shape [OF assms] by blast
  then show ?thesis using True by (simp add: uploadBlock_def Let_def)
next
  case False
  obtain u where "multiPartUpload w (getBucketName w (ceremonyPrefix cer))
      (''circuits/'' @ circuitPrefix cir @ ''/contributions/'' @ circuitPrefix cir @ ''_''
         @ formatZkeyIndex (completedContributions cir + 1) @ ''.zkey'')
      (contributionsPath (paths w) @ ''/'' @ circuitPrefix cir @ ''_''
         @ formatZkeyIndex (completedContributions cir + 1) @ ''.zkey'')
      True True (Some (ceremonyId cer)) (tempContributionDataOf npd) = (u, Inr ())"
      "u \<noteq> []" "\<forall>e\<in>set u. eventStep e = Some UPLOADING"
    using multiPartUpload_resolving_shape [OF assms] by blast
  then show ?thesis
    using False assms(1)
    by (simp add: uploadBlock_def Let_def makeContributionStepProgress_def await_resolves)
qed

lemma verifyBlock_resolving:
  assumes "\<forall>e. \<not> rejects w e" and "verifyResponse w = Some r"
  shows "verifyBlock w cer cir gh =
           ([VerifyContribution (ceremonyId cer) (circuitId cir) gh (getBucketName w (ceremonyPrefix cer))],
            Inr ())"
  using assms by (simp add: verifyBlock_def computeVerification_def await_resolves ret_def)

lemma download_then_progress:
  assumes "\<not> rejects w (DownloadLocalFileFromBucket (getBucketName w (ceremonyPrefix cer))
        (''circuits/'' @ circuitPrefix cir @ ''/contributions/'' @ circuitPrefix cir @ ''_''
           @ formatZkeyIndex (completedContributions cir) @ ''.zkey'')
        (contributionsPath (paths w) @ ''/'' @ circuitPrefix cir
           @ ''_'' @ formatZkeyIndex (completedContributions cir) @ ''.zkey''))"
  shows "fst (downloadBlock w cer cir False) =
     [DownloadLocalFileFromBucket (getBucketName w (ceremonyPrefix cer))
        (''circuits/'' @ circuitPrefix cir @ ''/contributions/'' @ circuitPrefix cir @ ''_''
           @ formatZkeyIndex (completedContributions cir) @ ''.zkey'')
        (contributionsPath (paths w) @ ''/'' @ circuitPrefix cir
           @ ''_'' @ formatZkeyIndex (completedContributions cir) @ ''.zkey''),
      ProgressToNextContributionStep (ceremonyId cer)]"
  using assms
  by (simp add: downloadBlock_def downloadContribution_def Let_def await_resolves)

lemma compute_then_progress:
  assumes "\<not> rejects w (zkeyCall w cir ent gh False)"
    and "regexMatch contributionHashPattern (readFile w (contributionTranscriptLocalPath w cir gh False)) = Some m"
    and "\<not> rejects w (PermanentlyStoreCurrentContributionTimeAndHash (ceremonyId cer) (timerMs w)
             (Some (replaceFirst [CHR 0x0A, CHR 0x09, CHR 0x09] [] m)))"
  shows "fst (computeBlock w cer cir ent gh False) =
     [zkeyCall w cir ent gh False,
      PermanentlyStoreCurrentContributionTimeAndHash (ceremonyId cer) (timerMs w)
             (Some (replaceFirst [CHR 0x0A, CHR 0x09, CHR 0x09] [] m)),
      ProgressToNextContributionStep (ceremonyId cer)]"
  using assms by (simp add: computeBlock_eq await_resolves)

lemma upload_then_progress:
  assumes "snd (multiPartUpload w (getBucketName w (ceremonyPrefix cer))
      (''circuits/'' @ circuitPrefix cir @ ''/contributions/'' @ circuitPrefix cir @ ''_''
         @ formatZkeyIndex (completedContributions cir + 1) @ ''.zkey'')
      (contributionsPath (paths w) @ ''/'' @ circuitPrefix cir @ ''_''
         @ formatZkeyIndex (completedContributions cir + 1) @ ''.zkey'')
      True True (Some (ceremonyId cer)) (tempContributionDataOf npd)) = Inr ()"
  shows "fst (uploadBlock w cer cir False npd) =
     fst (multiPartUpload w (getBucketName w (ceremonyPrefix cer))
      (''circuits/'' @ circuitPrefix cir @ ''/contributions/'' @ circuitPrefix cir @ ''_''
         @ formatZkeyIndex (completedContributions cir + 1) @ ''.zkey'')
      (contributionsPath (paths w) @ ''/'' @ circuitPrefix cir @ ''_''
         @ formatZkeyIndex (completedContributions cir + 1) @ ''.zkey'')
      True True (Some (ceremonyId cer)) (tempContributionDataOf npd))
     @ [ProgressToNextContributionStep (ceremonyId cer)]"
  using assms by (simp add: uploadBlock_def Let_def andThen_Inr)

section \<open>Properties of the contribution run\<close>

lemma stepGate_conditions:
  "(fin \<or> (truthyStep step \<and> step = Some DOWNLOADING)) = stepGate fin step DOWNLOADING"
  "(fin \<or> (truthyStep step \<and> step = Some DOWNLOADING) \<or> step = Some COMPUTING) = stepGate fin step COMPUTING"
  "(fin \<or> (truthyStep step \<and> step = Some DOWNLOADING) \<or> step = Some COMPUTING \<or> step = Some UPLOADING)
     = stepGate fin step UPLOADING"
  "(fin \<or> (truthyStep step \<and> step = Some DOWNLOADING) \<or> step = Some COMPUTING \<or> step = Some UPLOADING
      \<or> step = Some VERIFYING) = stepGate fin step VERIFYING"
proof -
  have "step = None \<or> (\<exists>s. step = Some s)" by (cases step) simp_all
  then show
    "(fin \<or> (truthyStep step \<and> step = Some DOWNLOADING)) = stepGate fin step DOWNLOADING"
    "(fin \<or> (truthyStep step \<and> step = Some DOWNLOADING) \<or> step = Some COMPUTING) = stepGate fin step COMPUTING"
    "(fin \<or> (truthyStep step \<and> step = Some DOWNLOADING) \<or> step = Some COMPUTING \<or> step = Some UPLOADING)
       = stepGate fin step UPLOADING"
    "(fin \<or> (truthyStep step \<and> step = Some DOWNLOADING) \<or> step = Some COMPUTING \<or> step = Some UPLOADING
        \<or> step = Some VERIFYING) = stepGate fin step VERIFYING"
    by (auto simp: stepGate_def atOrBefore_def truthyStep_def; (case_tac s; simp))+
qed

lemma stepGate_cases:
  "stepGate True step t"
  "stepGate False None t = False"
  "stepGate False (Some NOT_STARTED) t = False"
  "stepGate False (Some COMPLETED) t = (t = COMPLETED)"
  "stepGate False (Some DOWNLOADING) t = (t \<noteq> NOT_STARTED)"
  "stepGate False (Some COMPUTING) t = (t \<noteq> NOT_STARTED \<and> t \<noteq> DOWNLOADING)"
  "stepGate False (Some UPLOADING) t = (t = UPLOADING \<or> t = VERIFYING \<or> t = COMPLETED)"
  "stepGate False (Some VERIFYING) t = (t = VERIFYING \<or> t = COMPLETED)"
  by (cases t; simp add: stepGate_def atOrBefore_def)+

lemma stepGate_mono:
  "stepGate fin step COMPUTING \<Longrightarrow> stepGate fin step UPLOADING"
  "stepGate fin step UPLOADING \<Longrightarrow> stepGate fin step VERIFYING"
  by (auto simp: stepGate_def atOrBefore_def split: option.splits)

lemma makeContribution_gates:
  "makeContribution w cer cir ent gh fin npd =
     andThen (if stepGate fin (contributionStepOf npd) DOWNLOADING then downloadBlock w cer cir fin else ret ())
       (\<lambda>_. andThen (if stepGate fin (contributionStepOf npd) COMPUTING then computeBlock w cer cir ent gh fin else ret ())
       (\<lambda>_. andThen (if stepGate fin (contributionStepOf npd) UPLOADING then uploadBlock w cer cir fin npd else ret ())
       (\<lambda>_. if stepGate fin (contributionStepOf npd) VERIFYING then verifyBlock w cer cir gh else ret ())))"
  unfolding makeContribution_def Let_def stepGate_conditions ..

lemma stepsExecuted_Cons:
  "stepsExecuted (e # es) =
     (case eventStep e of
        None \<Rightarrow> stepsExecuted es
      | Some t \<Rightarrow> (case stepsExecuted es of [] \<Rightarrow> [t]
                   | y # ys \<Rightarrow> if t = y then y # ys else t # y # ys))"
  by (cases "eventStep e") (simp_all add: stepsExecuted_def List.map_filter_simps remdups_adj_Cons)

lemma stepsExecuted_Nil [simp]: "stepsExecuted [] = []"
  by (simp add: stepsExecuted_def List.map_filter_simps)

lemma stepsExecuted_block:
  assumes "u \<noteq> []" and "\<forall>e\<in>set u. eventStep e = Some t"
  shows "stepsExecuted (u @ es) =
           (case stepsExecuted es of [] \<Rightarrow> [t] | y # ys \<Rightarrow> if t = y then y # ys else t # y # ys)"
  using assms
proof (induction u rule: list_nonempty_induct)
  case (single e)
  then show ?case by (simp add: stepsExecuted_Cons)
next
  case (cons e u)
  then have "stepsExecuted (u @ es) =
           (case stepsExecuted es of [] \<Rightarrow> [t] | y # ys \<Rightarrow> if t = y then y # ys else t # y # ys)"
    and "eventStep e = Some t"
    by simp_all
  then show ?case by (simp add: stepsExecuted_Cons split: list.splits)
qed

lemma milestones_Cons:
  "milestones (e # es) =
     (case milestones es of [] \<Rightarrow> [eventStep e]
      | y # ys \<Rightarrow> if eventStep e = y then y # ys else eventStep e # y # ys)"
  by (simp add: milestones_def remdups_adj_Cons)

lemma milestones_Nil [simp]: "milestones [] = []"
  by (simp add: milestones_def)

lemma milestones_block:
  assumes "u \<noteq> []" and "\<forall>e\<in>set u. eventStep e = c"
  shows "milestones (u @ es) =
           (case milestones es of [] \<Rightarrow> [c] | y # ys \<Rightarrow> if c = y then y # ys else c # y # ys)"
  using assms
proof (induction u rule: list_nonempty_induct)
  case (single e)
  then show ?case by (auto simp: milestones_Cons split: list.splits)
next
  case (cons e u)
  then have "milestones (u @ es) =
           (case milestones es of [] \<Rightarrow> [c] | y # ys \<Rightarrow> if c = y then y # ys else c # y # ys)"
    and "eventStep e = c"
    by simp_all
  then show ?case by (auto simp: milestones_Cons split: list.splits)
qed

lemma checkpointHistory_step_event:
  "eventStep e = Some t \<Longrightarrow> checkpointHistory s (e # es) = checkpointHistory s es"
  by (cases e) simp_all

lemma checkpointHistory_block:
  "\<forall>e\<in>set u. eventStep e = Some t \<Longrightarrow> checkpointHistory s (u @ es) = checkpointHistory s es"
  by (induction u) (simp_all add: checkpointHistory_step_event)

text \<open>The whole run when every call resolves, the upload is configured, the transcript matches
  and the verification responds.\<close>

lemma makeContribution_resolving:
  assumes norej: "\<forall>e. \<not> rejects w e" and cfg: "truthyString (presignedUrlExpiration w)"
    and hash: "regexMatch contributionHashPattern (readFile w (contributionTranscriptLocalPath w cir gh fin)) = Some m"
    and vr: "verifyResponse w = Some r"
  shows "\<exists>u. u \<noteq> [] \<and> (\<forall>e\<in>set u. eventStep e = Some UPLOADING)
           \<and> makeContribution w cer cir ent gh fin npd =
               ((if stepGate fin (contributionStepOf npd) DOWNLOADING
                 then DownloadLocalFileFromBucket (getBucketName w (ceremonyPrefix cer))
                        (''circuits/'' @ circuitPrefix cir @ ''/contributions/'' @ circuitPrefix cir @ ''_''
                           @ formatZkeyIndex (completedContributions cir) @ ''.zkey'')
                        ((if fin then finalZkeysPath (paths w) else contributionsPath (paths w)) @ ''/''
                           @ circuitPrefix cir @ ''_'' @ formatZkeyIndex (completedContributions cir) @ ''.zkey'')
                      # (if fin then [] else [ProgressToNextContributionStep (ceremonyId cer)])
                 else [])
                @ (if stepGate fin (contributionStepOf npd) COMPUTING
                   then [zkeyCall w cir ent gh fin,
                         PermanentlyStoreCurrentContributionTimeAndHash (ceremonyId cer) (timerMs w)
                           (Some (replaceFirst [CHR 0x0A, CHR 0x09, CHR 0x09] [] m))]
                        @ (if fin then [] else [ProgressToNextContributionStep (ceremonyId cer)])
                   else [])
                @ (if stepGate fin (contributionStepOf npd) UPLOADING
                   then u @ (if fin then [] else [ProgressToNextContributionStep (ceremonyId cer)])
                   else [])
                @ (if stepGate fin (contributionStepOf npd) VERIFYING
                   then [VerifyContribution (ceremonyId cer) (circuitId cir) gh
                           (getBucketName w (ceremonyPrefix cer))]
                   else []),
                Inr ())"
proof -
  obtain u where u: "uploadBlock w cer cir fin npd
               = (u @ (if fin then [] else [ProgressToNextContributionStep (ceremonyId cer)]), Inr ())"
      "u \<noteq> []" "\<forall>e\<in>set u. eventStep e = Some UPLOADING"
    using uploadBlock_resolving [OF norej cfg] by blast
  have "makeContribution w cer cir ent gh fin npd =
               ((if stepGate fin (contributionStepOf npd) DOWNLOADING
                 then DownloadLocalFileFromBucket (getBucketName w (ceremonyPrefix cer))
                        (''circuits/'' @ circuitPrefix cir @ ''/contributions/'' @ circuitPrefix cir @ ''_''
                           @ formatZkeyIndex (completedContributions cir) @ ''.zkey'')
                        ((if fin then finalZkeysPath (paths w) else contributionsPath (paths w)) @ ''/''
                           @ circuitPrefix cir @ ''_'' @ formatZkeyIndex (completedContributions cir) @ ''.zkey'')
                      # (if fin then [] else [ProgressToNextContributionStep (ceremonyId cer)])
                 else [])
                @ (if stepGate fin (contributionStepOf npd) COMPUTING
                   then [zkeyCall w cir ent gh fin,
                         PermanentlyStoreCurrentContributionTimeAndHash (ceremonyId cer) (timerMs w)
                           (Some (replaceFirst [CHR 0x0A, CHR 0x09, CHR 0x09] [] m))]
                        @ (if fin then [] else [ProgressToNextContributionStep (ceremonyId cer)])
                   else [])
                @ (if stepGate fin (contributionStepOf npd) UPLOADING
                   then u @ (if fin then [] else [ProgressToNextContributionStep (ceremonyId cer)])
                   else [])
                @ (if stepGate fin (contributionStepOf npd) VERIFYING
                   then [VerifyContribution (ceremonyId cer) (circuitId cir) gh
                           (getBucketName w (ceremonyPrefix cer))]
                   else []),
                Inr ())"
    unfolding makeContribution_gates
      downloadBlock_resolving [OF norej] computeBlock_resolving [OF norej hash] u(1)
      verifyBlock_resolving [OF norej vr]
    by (simp add: ret_def)
  then show ?thesis using u(2,3) by blast
qed

lemma steps_executed_resolving:
  assumes norej: "\<forall>e. \<not> rejects w e" and cfg: "truthyString (presignedUrlExpiration w)"
    and hash: "regexMatch contributionHashPattern (readFile w (contributionTranscriptLocalPath w cir gh fin)) \<noteq> None"
    and vr: "verifyResponse w \<noteq> None"
  shows "stepsExecuted (fst (makeContribution w cer cir ent gh fin npd))
           = filter (stepGate fin (contributionStepOf npd)) [DOWNLOADING, COMPUTING, UPLOADING, VERIFYING]
         \<and> snd (makeContribution w cer cir ent gh fin npd) = Inr ()
         \<and> (\<not> fin \<and> contributionStepOf npd = Some DOWNLOADING \<longrightarrow>
              stepsExecuted (fst (makeContribution w cer cir ent gh fin npd))
                = [DOWNLOADING, COMPUTING, UPLOADING, VERIFYING])"
proof -
  obtain m r where m: "regexMatch contributionHashPattern (readFile w (contributionTranscriptLocalPath w cir gh fin)) = Some m"
    and r: "verifyResponse w = Some r"
    using hash vr by auto
  obtain u where un: "u \<noteq> []" and ue: "\<forall>e\<in>set u. eventStep e = Some UPLOADING"
    and run: "makeContribution w cer cir ent gh fin npd =
               ((if stepGate fin (contributionStepOf npd) DOWNLOADING
                 then DownloadLocalFileFromBucket (getBucketName w (ceremonyPrefix cer))
                        (''circuits/'' @ circuitPrefix cir @ ''/contributions/'' @ circuitPrefix cir @ ''_''
                           @ formatZkeyIndex (completedContributions cir) @ ''.zkey'')
                        ((if fin then finalZkeysPath (paths w) else contributionsPath (paths w)) @ ''/''
                           @ circuitPrefix cir @ ''_'' @ formatZkeyIndex (completedContributions cir) @ ''.zkey'')
                      # (if fin then [] else [ProgressToNextContributionStep (ceremonyId cer)])
                 else [])
                @ (if stepGate fin (contributionStepOf npd) COMPUTING
                   then [zkeyCall w cir ent gh fin,
                         PermanentlyStoreCurrentContributionTimeAndHash (ceremonyId cer) (timerMs w)
                           (Some (replaceFirst [CHR 0x0A, CHR 0x09, CHR 0x09] [] m))]
                        @ (if fin then [] else [ProgressToNextContributionStep (ceremonyId cer)])
                   else [])
                @ (if stepGate fin (contributionStepOf npd) UPLOADING
                   then u @ (if fin then [] else [ProgressToNextContributionStep (ceremonyId cer)])
                   else [])
                @ (if stepGate fin (contributionStepOf npd) VERIFYING
                   then [VerifyContribution (ceremonyId cer) (circuitId cir) gh
                           (getBucketName w (ceremonyPrefix cer))]
                   else []),
                Inr ())"
    using makeContribution_resolving [OF norej cfg m r, of cer ent npd] by blast
  have zk: "eventStep (zkeyCall w cir ent gh f) = Some COMPUTING" for f
    by (simp add: zkeyCall_def)
  note blk = stepsExecuted_block [OF un ue]
  have steps: "stepsExecuted (fst (makeContribution w cer cir ent gh fin npd))
           = filter (stepGate fin (contributionStepOf npd)) [DOWNLOADING, COMPUTING, UPLOADING, VERIFYING]"
  proof (cases fin)
    case True
    then show ?thesis
      unfolding run by (simp add: stepGate_cases stepsExecuted_Cons zk blk)
  next
    case False
    show ?thesis
    proof (cases "contributionStepOf npd")
      case None
      then show ?thesis unfolding run using False by (simp add: stepGate_cases)
    next
      case (Some s)
      then show ?thesis
        unfolding run using False
        by (cases s) (simp_all add: stepGate_cases stepsExecuted_Cons zk blk)
    qed
  qed
  have res: "snd (makeContribution w cer cir ent gh fin npd) = Inr ()"
    by (simp add: run)
  have "stepsExecuted (fst (makeContribution w cer cir ent gh fin npd))
          = [DOWNLOADING, COMPUTING, UPLOADING, VERIFYING]"
    if "\<not> fin" "contributionStepOf npd = Some DOWNLOADING"
    unfolding steps using that by (simp add: stepGate_cases)
  then show ?thesis using steps res by blast
qed

lemma skipped_step_makes_no_call:
  assumes "\<not> stepGate fin (contributionStepOf npd) t"
  shows "\<forall>e\<in>set (fst (makeContribution w cer cir ent gh fin npd)). eventStep e \<noteq> Some t"
proof -
  have d: "\<forall>e\<in>set (fst (if stepGate fin (contributionStepOf npd) DOWNLOADING
                          then downloadBlock w cer cir fin else ret ())). eventStep e \<noteq> Some t"
    using assms events_downloadBlock [of w cer cir fin]
    by (cases "t = DOWNLOADING") (auto simp: isProgressRequest_step)
  have c: "\<forall>e\<in>set (fst (if stepGate fin (contributionStepOf npd) COMPUTING
                          then computeBlock w cer cir ent gh fin else ret ())). eventStep e \<noteq> Some t"
    using assms events_computeBlock [of w cer cir ent gh fin]
    by (cases "t = COMPUTING") (auto simp: isProgressRequest_step)
  have u: "\<forall>e\<in>set (fst (if stepGate fin (contributionStepOf npd) UPLOADING
                          then uploadBlock w cer cir fin npd else ret ())). eventStep e \<noteq> Some t"
    using assms events_uploadBlock [of w cer cir fin npd]
    by (cases "t = UPLOADING") (auto simp: isProgressRequest_step)
  have v: "\<forall>e\<in>set (fst (if stepGate fin (contributionStepOf npd) VERIFYING
                          then verifyBlock w cer cir gh else ret ())). eventStep e \<noteq> Some t"
    using assms events_verifyBlock [of w cer cir gh]
    by (cases "t = VERIFYING") auto
  show ?thesis
    unfolding makeContribution_gates
    by (intro events_andThen d c u v)
qed

text \<open>
  C1 (amended). Under any environment a step for which \<open>stepGate\<close> fails makes no call.
  When every call resolves, the upload is configured, the transcript carries a
  contribution hash and the verification responds, the steps a run executes are, in order,
  exactly those of download, compute, upload, verify for which \<open>stepGate\<close> holds: finalize is
  true, or the checkpoint's step is DOWNLOADING or later and at-or-before that step. A
  NOT_STARTED or absent step runs nothing without finalize; with step DOWNLOADING and
  finalize false all four steps execute in order and the run succeeds.
\<close>

theorem C1_steps_executed:
  "(\<not> stepGate fin (contributionStepOf npd) t \<longrightarrow>
      filter (\<lambda>e. eventStep e = Some t) (fst (makeContribution w cer cir ent gh fin npd)) = [])
   \<and> ((\<forall>e. \<not> rejects w e) \<and> truthyString (presignedUrlExpiration w)
        \<and> regexMatch contributionHashPattern (readFile w (contributionTranscriptLocalPath w cir gh fin)) \<noteq> None
        \<and> verifyResponse w \<noteq> None \<longrightarrow>
        stepsExecuted (fst (makeContribution w cer cir ent gh fin npd))
           = filter (stepGate fin (contributionStepOf npd)) [DOWNLOADING, COMPUTING, UPLOADING, VERIFYING]
        \<and> snd (makeContribution w cer cir ent gh fin npd) = Inr ()
        \<and> (\<not> fin \<and> contributionStepOf npd = Some DOWNLOADING \<longrightarrow>
              stepsExecuted (fst (makeContribution w cer cir ent gh fin npd))
                = [DOWNLOADING, COMPUTING, UPLOADING, VERIFYING]))"
proof -
  have a: "filter (\<lambda>e. eventStep e = Some t) (fst (makeContribution w cer cir ent gh fin npd)) = []"
    if "\<not> stepGate fin (contributionStepOf npd) t"
    using skipped_step_makes_no_call [OF that, of w cer cir ent gh] by (simp add: filter_empty_conv)
  have b: "stepsExecuted (fst (makeContribution w cer cir ent gh fin npd))
           = filter (stepGate fin (contributionStepOf npd)) [DOWNLOADING, COMPUTING, UPLOADING, VERIFYING]
        \<and> snd (makeContribution w cer cir ent gh fin npd) = Inr ()
        \<and> (\<not> fin \<and> contributionStepOf npd = Some DOWNLOADING \<longrightarrow>
              stepsExecuted (fst (makeContribution w cer cir ent gh fin npd))
                = [DOWNLOADING, COMPUTING, UPLOADING, VERIFYING])"
    if "\<forall>e. \<not> rejects w e" "truthyString (presignedUrlExpiration w)"
      "regexMatch contributionHashPattern (readFile w (contributionTranscriptLocalPath w cir gh fin)) \<noteq> None"
      "verifyResponse w \<noteq> None"
    using that by (rule steps_executed_resolving)
  show ?thesis using a b by blast
qed

theorem C1_steps_executed_witness:
  "(\<forall>e. \<not> rejects sampleWorld e) \<and> truthyString (presignedUrlExpiration sampleWorld)
   \<and> regexMatch contributionHashPattern
        (readFile sampleWorld (contributionTranscriptLocalPath sampleWorld sampleCircuit ''alice'' False)) \<noteq> None
   \<and> verifyResponse sampleWorld \<noteq> None
   \<and> contributionStepOf (Some sampleFresh) = Some DOWNLOADING
   \<and> stepsExecuted (fst (makeContribution sampleWorld sampleCeremony sampleCircuit ''entropy'' ''alice'' False
        (Some sampleFresh))) = [DOWNLOADING, COMPUTING, UPLOADING, VERIFYING]
   \<and> snd (makeContribution sampleWorld sampleCeremony sampleCircuit ''entropy'' ''alice'' False
        (Some sampleFresh)) = Inr ()"
proof -
  have h1: "\<forall>e. \<not> rejects sampleWorld e" by simp
  have h2: "truthyString (presignedUrlExpiration sampleWorld)" by (simp add: truthyString_def)
  have h3: "regexMatch contributionHashPattern
        (readFile sampleWorld (contributionTranscriptLocalPath sampleWorld sampleCircuit ''alice'' False)) \<noteq> None"
    by simp
  have h4: "verifyResponse sampleWorld \<noteq> None" by simp
  have h5: "contributionStepOf (Some sampleFresh) = Some DOWNLOADING"
    by (simp add: contributionStepOf_def sampleFresh_def)
  show ?thesis
    using h1 h2 h3 h4 h5
      C1_steps_executed [of False "Some sampleFresh" DOWNLOADING sampleWorld sampleCeremony sampleCircuit
        "''entropy''" "''alice''"]
    by (simp add: stepGate_cases)
qed

text \<open>
  The claim as stated fails at NOT_STARTED: that step is at-or-before DOWNLOADING, yet the run
  with finalize false makes no call at all.
\<close>

theorem C1_counterexample:
  "atOrBefore NOT_STARTED DOWNLOADING
   \<and> makeContribution sampleWorld sampleCeremony sampleCircuit ''entropy'' ''alice'' False
        (Some sampleNotStarted) = ([], Inr ())"
  by (simp add: atOrBefore_def makeContribution_def Let_def contributionStepOf_def sampleNotStarted_def
      truthyStep_def ret_def)

text \<open>
  C2. With the checkpoint at UPLOADING and finalize false, under any environment, the run is
  the chunked upload called with the persisted temporary contribution data, then the
  progress request, then the verification; its trace holds no download and no compute call.
\<close>

theorem C2_resume_at_uploading:
  assumes "contributionStep d = Some UPLOADING"
  shows "makeContribution w cer cir ent gh False (Some d) =
           andThen (multiPartUpload w (getBucketName w (ceremonyPrefix cer))
                      (''circuits/'' @ circuitPrefix cir @ ''/contributions/'' @ circuitPrefix cir @ ''_''
                         @ formatZkeyIndex (completedContributions cir + 1) @ ''.zkey'')
                      (contributionsPath (paths w) @ ''/'' @ circuitPrefix cir @ ''_''
                         @ formatZkeyIndex (completedContributions cir + 1) @ ''.zkey'')
                      True True (Some (ceremonyId cer)) (tempContributionData d))
             (\<lambda>_. andThen (makeContributionStepProgress w (ceremonyId cer) True ''verification'')
             (\<lambda>_. verifyBlock w cer cir gh))
         \<and> filter isDownloadOrCompute (fst (makeContribution w cer cir ent gh False (Some d))) = []"
proof -
  let ?up = "multiPartUpload w (getBucketName w (ceremonyPrefix cer))
                      (''circuits/'' @ circuitPrefix cir @ ''/contributions/'' @ circuitPrefix cir @ ''_''
                         @ formatZkeyIndex (completedContributions cir + 1) @ ''.zkey'')
                      (contributionsPath (paths w) @ ''/'' @ circuitPrefix cir @ ''_''
                         @ formatZkeyIndex (completedContributions cir + 1) @ ''.zkey'')
                      True True (Some (ceremonyId cer)) (tempContributionData d)"
  let ?rest = "\<lambda>_::unit. andThen (makeContributionStepProgress w (ceremonyId cer) True ''verification'')
             (\<lambda>_. verifyBlock w cer cir gh)"
  have eq: "makeContribution w cer cir ent gh False (Some d) = andThen ?up ?rest"
    using assms
    by (simp add: makeContribution_def uploadBlock_def Let_def andThen_assoc contributionStepOf_def
        tempContributionDataOf_def truthyStep_def)
  have "\<forall>e\<in>set (fst (andThen ?up ?rest)). \<not> isDownloadOrCompute e"
  proof (intro events_andThen)
    show "\<forall>e\<in>set (fst ?up). \<not> isDownloadOrCompute e"
      using events_multiPartUpload [of w _ _ _ True True _ "tempContributionData d"]
      by (simp add: isDownloadOrCompute_def)
    show "\<forall>e\<in>set (fst (makeContributionStepProgress w (ceremonyId cer) True ''verification'')).
            \<not> isDownloadOrCompute e"
      by (simp add: isDownloadOrCompute_def)
    show "\<forall>e\<in>set (fst (verifyBlock w cer cir gh)). \<not> isDownloadOrCompute e" for x :: unit
      using events_verifyBlock [of w cer cir gh] by (simp add: isDownloadOrCompute_def)
  qed
  then have "filter isDownloadOrCompute (fst (andThen ?up ?rest)) = []"
    by (simp only: filter_empty_conv)
  then show ?thesis using eq by simp
qed

theorem C2_resume_at_uploading_witness:
  "contributionStep sampleResumed = Some UPLOADING
   \<and> filter isDownloadOrCompute
        (fst (makeContribution sampleWorld sampleCeremony sampleCircuit ''entropy'' ''alice'' False
                (Some sampleResumed))) = []"
proof -
  have h: "contributionStep sampleResumed = Some UPLOADING" by (simp add: sampleResumed_def)
  show ?thesis
    using h C2_resume_at_uploading [OF h, of sampleWorld sampleCeremony sampleCircuit "''entropy''" "''alice''"]
    by blast
qed

lemma makeContribution_verify_last:
  "\<exists>pre post. fst (makeContribution w cer cir ent gh fin npd) = pre @ post
      \<and> (\<forall>e\<in>set pre. eventStep e \<noteq> Some VERIFYING) \<and> (\<forall>e\<in>set post. eventStep e = Some VERIFYING)"
  unfolding makeContribution_gates
proof (intro split_andThen events_if_ret blocks_not_verifying)
  show "\<exists>pre post. fst (if stepGate fin (contributionStepOf npd) VERIFYING then verifyBlock w cer cir gh else ret ())
          = pre @ post \<and> (\<forall>e\<in>set pre. eventStep e \<noteq> Some VERIFYING)
            \<and> (\<forall>e\<in>set post. eventStep e = Some VERIFYING)" for x :: unit
  proof (intro exI conjI)
    show "fst (if stepGate fin (contributionStepOf npd) VERIFYING then verifyBlock w cer cir gh else ret ())
          = [] @ fst (if stepGate fin (contributionStepOf npd) VERIFYING then verifyBlock w cer cir gh else ret ())"
      by simp
    show "\<forall>e\<in>set []. eventStep e \<noteq> Some VERIFYING" by simp
    show "\<forall>e\<in>set (fst (if stepGate fin (contributionStepOf npd) VERIFYING then verifyBlock w cer cir gh else ret ())).
            eventStep e = Some VERIFYING"
      by (intro events_if_ret events_verifyBlock)
  qed
qed

lemma no_progress_when_finalizing:
  "filter isProgressRequest (fst (makeContribution w cer cir ent gh True npd)) = []"
proof -
  have "\<forall>e\<in>set (fst (makeContribution w cer cir ent gh True npd)). \<not> isProgressRequest e"
    unfolding makeContribution_gates
    by (intro events_andThen events_if_ret blocks_no_progress_when_finalizing)
  then show ?thesis by (simp add: filter_empty_conv)
qed

lemma no_progress_after_verification:
  "filter isProgressRequest
     (dropWhile (\<lambda>e. eventStep e \<noteq> Some VERIFYING) (fst (makeContribution w cer cir ent gh fin npd))) = []"
proof -
  obtain pre post where p: "fst (makeContribution w cer cir ent gh fin npd) = pre @ post"
    "\<forall>e\<in>set pre. eventStep e \<noteq> Some VERIFYING" "\<forall>e\<in>set post. eventStep e = Some VERIFYING"
    using makeContribution_verify_last [of w cer cir ent gh fin npd] by (elim exE conjE)
  have d: "dropWhile (\<lambda>e. eventStep e \<noteq> Some VERIFYING) (pre @ post)
        = dropWhile (\<lambda>e. eventStep e \<noteq> Some VERIFYING) post"
    by (rule dropWhile_append2) (use p(2) in blast)
  have "\<not> isProgressRequest e" if "e \<in> set (dropWhile (\<lambda>e. eventStep e \<noteq> Some VERIFYING) post)" for e
  proof -
    have "e \<in> set post" using that by (rule set_dropWhileD)
    then have "eventStep e = Some VERIFYING" using p(3) by blast
    then show ?thesis by (simp add: isProgressRequest_step)
  qed
  then have "filter isProgressRequest (dropWhile (\<lambda>e. eventStep e \<noteq> Some VERIFYING) post) = []"
    unfolding filter_empty_conv by blast
  then show ?thesis by (simp only: p(1) d)
qed

text \<open>
  C5. With finalize true no progress request is ever made, under any environment. In either
  mode nothing is requested once the verification call has been made. With finalize false,
  under any environment, a download that resolves, a compute whose hash is found and
  stored, and an upload that succeeds are each followed at once by a progress request.
  With finalize false and the run succeeding from checkpoint step \<open>s\<close>, a progress request
  follows each of the download, compute and upload steps executed and none follows verify;
  the request names no target, and the checkpoint authority, advancing by one step on each,
  reaches COMPUTING, UPLOADING and VERIFYING respectively.
\<close>

theorem C5_checkpoint_advancement:
  "filter isProgressRequest (fst (makeContribution w cer cir ent gh True npd)) = []
   \<and> filter isProgressRequest
        (dropWhile (\<lambda>e. eventStep e \<noteq> Some VERIFYING) (fst (makeContribution w cer cir ent gh fin npd))) = []
   \<and> (\<not> rejects w (DownloadLocalFileFromBucket (getBucketName w (ceremonyPrefix cer))
          (''circuits/'' @ circuitPrefix cir @ ''/contributions/'' @ circuitPrefix cir @ ''_''
             @ formatZkeyIndex (completedContributions cir) @ ''.zkey'')
          (contributionsPath (paths w) @ ''/'' @ circuitPrefix cir
             @ ''_'' @ formatZkeyIndex (completedContributions cir) @ ''.zkey'')) \<longrightarrow>
        fst (downloadBlock w cer cir False) =
          [DownloadLocalFileFromBucket (getBucketName w (ceremonyPrefix cer))
             (''circuits/'' @ circuitPrefix cir @ ''/contributions/'' @ circuitPrefix cir @ ''_''
                @ formatZkeyIndex (completedContributions cir) @ ''.zkey'')
             (contributionsPath (paths w) @ ''/'' @ circuitPrefix cir
                @ ''_'' @ formatZkeyIndex (completedContributions cir) @ ''.zkey''),
           ProgressToNextContributionStep (ceremonyId cer)])
   \<and> (\<forall>m. \<not> rejects w (zkeyCall w cir ent gh False)
          \<and> regexMatch contributionHashPattern
               (readFile w (contributionTranscriptLocalPath w cir gh False)) = Some m
          \<and> \<not> rejects w (PermanentlyStoreCurrentContributionTimeAndHash (ceremonyId cer) (timerMs w)
                 (Some (replaceFirst [CHR 0x0A, CHR 0x09, CHR 0x09] [] m))) \<longrightarrow>
        fst (computeBlock w cer cir ent gh False) =
          [zkeyCall w cir ent gh False,
           PermanentlyStoreCurrentContributionTimeAndHash (ceremonyId cer) (timerMs w)
             (Some (replaceFirst [CHR 0x0A, CHR 0x09, CHR 0x09] [] m)),
           ProgressToNextContributionStep (ceremonyId cer)])
   \<and> (snd (multiPartUpload w (getBucketName w (ceremonyPrefix cer))
          (''circuits/'' @ circuitPrefix cir @ ''/contributions/'' @ circuitPrefix cir @ ''_''
             @ formatZkeyIndex (completedContributions cir + 1) @ ''.zkey'')
          (contributionsPath (paths w) @ ''/'' @ circuitPrefix cir @ ''_''
             @ formatZkeyIndex (completedContributions cir + 1) @ ''.zkey'')
          True True (Some (ceremonyId cer)) (tempContributionDataOf npd)) = Inr () \<longrightarrow>
        fst (uploadBlock w cer cir False npd) =
          fst (multiPartUpload w (getBucketName w (ceremonyPrefix cer))
            (''circuits/'' @ circuitPrefix cir @ ''/contributions/'' @ circuitPrefix cir @ ''_''
               @ formatZkeyIndex (completedContributions cir + 1) @ ''.zkey'')
            (contributionsPath (paths w) @ ''/'' @ circuitPrefix cir @ ''_''
               @ formatZkeyIndex (completedContributions cir + 1) @ ''.zkey'')
            True True (Some (ceremonyId cer)) (tempContributionDataOf npd))
          @ [ProgressToNextContributionStep (ceremonyId cer)])
   \<and> ((\<forall>e. \<not> rejects w e) \<and> truthyString (presignedUrlExpiration w)
        \<and> regexMatch contributionHashPattern (readFile w (contributionTranscriptLocalPath w cir gh False)) \<noteq> None
        \<and> verifyResponse w \<noteq> None \<and> contributionStepOf npd = Some s \<longrightarrow>
        milestones (fst (makeContribution w cer cir ent gh False npd))
          = concat (map (\<lambda>t. if t = VERIFYING then [Some t] else [Some t, None])
                        (filter (stepGate False (Some s)) [DOWNLOADING, COMPUTING, UPLOADING, VERIFYING]))
        \<and> checkpointHistory s (fst (makeContribution w cer cir ent gh False npd))
          = map nextStep (filter (stepGate False (Some s)) [DOWNLOADING, COMPUTING, UPLOADING]))"
proof -
  have third: "milestones (fst (makeContribution w cer cir ent gh False npd))
          = concat (map (\<lambda>t. if t = VERIFYING then [Some t] else [Some t, None])
                        (filter (stepGate False (Some s)) [DOWNLOADING, COMPUTING, UPLOADING, VERIFYING]))
        \<and> checkpointHistory s (fst (makeContribution w cer cir ent gh False npd))
          = map nextStep (filter (stepGate False (Some s)) [DOWNLOADING, COMPUTING, UPLOADING])"
    if norej: "\<forall>e. \<not> rejects w e" and cfg: "truthyString (presignedUrlExpiration w)"
      and hash: "regexMatch contributionHashPattern (readFile w (contributionTranscriptLocalPath w cir gh False)) \<noteq> None"
      and vr: "verifyResponse w \<noteq> None" and st: "contributionStepOf npd = Some s"
  proof -
    obtain m r where m: "regexMatch contributionHashPattern (readFile w (contributionTranscriptLocalPath w cir gh False)) = Some m"
      and r: "verifyResponse w = Some r"
      using hash vr by auto
    obtain u where un: "u \<noteq> []" and ue: "\<forall>e\<in>set u. eventStep e = Some UPLOADING"
      and run: "makeContribution w cer cir ent gh False npd =
               ((if stepGate False (contributionStepOf npd) DOWNLOADING
                 then DownloadLocalFileFromBucket (getBucketName w (ceremonyPrefix cer))
                        (''circuits/'' @ circuitPrefix cir @ ''/contributions/'' @ circuitPrefix cir @ ''_''
                           @ formatZkeyIndex (completedContributions cir) @ ''.zkey'')
                        ((if False then finalZkeysPath (paths w) else contributionsPath (paths w)) @ ''/''
                           @ circuitPrefix cir @ ''_'' @ formatZkeyIndex (completedContributions cir) @ ''.zkey'')
                      # (if False then [] else [ProgressToNextContributionStep (ceremonyId cer)])
                 else [])
                @ (if stepGate False (contributionStepOf npd) COMPUTING
                   then [zkeyCall w cir ent gh False,
                         PermanentlyStoreCurrentContributionTimeAndHash (ceremonyId cer) (timerMs w)
                           (Some (replaceFirst [CHR 0x0A, CHR 0x09, CHR 0x09] [] m))]
                        @ (if False then [] else [ProgressToNextContributionStep (ceremonyId cer)])
                   else [])
                @ (if stepGate False (contributionStepOf npd) UPLOADING
                   then u @ (if False then [] else [ProgressToNextContributionStep (ceremonyId cer)])
                   else [])
                @ (if stepGate False (contributionStepOf npd) VERIFYING
                   then [VerifyContribution (ceremonyId cer) (circuitId cir) gh
                           (getBucketName w (ceremonyPrefix cer))]
                   else []),
                Inr ())"
      using makeContribution_resolving [OF norej cfg m r, of cer ent npd] by blast
    have zk: "eventStep (zkeyCall w cir ent gh False) = Some COMPUTING"
      by (simp add: zkeyCall_def)
    note mb = milestones_block [OF un ue]
    note cb = checkpointHistory_block [OF ue]
    have ms: "milestones (fst (makeContribution w cer cir ent gh False npd))
          = concat (map (\<lambda>t. if t = VERIFYING then [Some t] else [Some t, None])
                        (filter (stepGate False (Some s)) [DOWNLOADING, COMPUTING, UPLOADING, VERIFYING]))"
      unfolding run st
      by (cases s) (simp_all add: stepGate_cases milestones_Cons zk mb)
    have ch: "checkpointHistory s (fst (makeContribution w cer cir ent gh False npd))
          = map nextStep (filter (stepGate False (Some s)) [DOWNLOADING, COMPUTING, UPLOADING])"
      unfolding run st
      by (cases s) (simp_all add: stepGate_cases zkeyCall_def cb)
    show ?thesis using ms ch by simp
  qed
  note first = no_progress_when_finalizing [of w cer cir ent gh npd]
  note second = no_progress_after_verification [of w cer cir ent gh fin npd]
  note dl = download_then_progress [of w cer cir]
  note cp = compute_then_progress [of w cir ent gh _ cer]
  note up = upload_then_progress [of w cer cir npd]
  have f3: "(\<forall>e. \<not> rejects w e) \<and> truthyString (presignedUrlExpiration w)
        \<and> regexMatch contributionHashPattern (readFile w (contributionTranscriptLocalPath w cir gh False)) \<noteq> None
        \<and> verifyResponse w \<noteq> None \<and> contributionStepOf npd = Some s \<longrightarrow>
        milestones (fst (makeContribution w cer cir ent gh False npd))
          = concat (map (\<lambda>t. if t = VERIFYING then [Some t] else [Some t, None])
                        (filter (stepGate False (Some s)) [DOWNLOADING, COMPUTING, UPLOADING, VERIFYING]))
        \<and> checkpointHistory s (fst (makeContribution w cer cir ent gh False npd))
          = map nextStep (filter (stepGate False (Some s)) [DOWNLOADING, COMPUTING, UPLOADING])"
    using third by (intro impI; elim conjE)
  show ?thesis
    by (intro conjI) (fact first, fact second, (intro impI dl; assumption), (intro allI impI cp; elim conjE; assumption),
        (intro impI up; assumption), fact f3)
qed

theorem C5_checkpoint_advancement_witness:
  "(\<forall>e. \<not> rejects sampleWorld e) \<and> truthyString (presignedUrlExpiration sampleWorld)
   \<and> verifyResponse sampleWorld \<noteq> None
   \<and> contributionStepOf (Some sampleFresh) = Some DOWNLOADING
   \<and> milestones (fst (makeContribution sampleWorld sampleCeremony sampleCircuit ''entropy'' ''alice'' False
        (Some sampleFresh)))
      = [Some DOWNLOADING, None, Some COMPUTING, None, Some UPLOADING, None, Some VERIFYING]
   \<and> checkpointHistory DOWNLOADING
        (fst (makeContribution sampleWorld sampleCeremony sampleCircuit ''entropy'' ''alice'' False
           (Some sampleFresh)))
      = [COMPUTING, UPLOADING, VERIFYING]"
proof -
  have h1: "\<forall>e. \<not> rejects sampleWorld e" by simp
  have h2: "truthyString (presignedUrlExpiration sampleWorld)" by (simp add: truthyString_def)
  have h3: "regexMatch contributionHashPattern
        (readFile sampleWorld (contributionTranscriptLocalPath sampleWorld sampleCircuit ''alice'' False)) \<noteq> None"
    by simp
  have h4: "verifyResponse sampleWorld \<noteq> None" by simp
  have h5: "contributionStepOf (Some sampleFresh) = Some DOWNLOADING"
    by (simp add: contributionStepOf_def sampleFresh_def)
  show ?thesis
    using h1 h2 h3 h4 h5
      C5_checkpoint_advancement [of sampleWorld sampleCeremony sampleCircuit "''entropy''" "''alice''"
        "Some sampleFresh" False DOWNLOADING]
    by (simp add: stepGate_cases)
qed

text \<open>
  C6. All of the following is about a run that enters the compute step, every call resolving.
  When the transcript has no match of the contribution hash pattern, and so whenever no
  position of it starts a hash block, the run ends with the fatal error
  GENERIC_CONTRIBUTION_HASH_INVALID right after the compute call and nothing is stored.
  When there is a match, the matched text with its first line feed and tabs removed is
  stored and the run goes on: the progress request follows unless finalizing, then the
  upload and verification blocks, whose outcome is the outcome of the run; it completes,
  having executed upload and verification, when the upload is configured and the
  verification responds.
  When the leftmost hash block of the transcript is \<open>hashBlock a b l1 l2 l3 l4\<close>, whatever
  stands before and after it, the match is that block and the value stored is
  \<open>hashFingerprint a b l1 l2 l3 l4\<close>.
\<close>

theorem C6_contribution_hash:
  assumes norej: "\<forall>e. \<not> rejects w e" and g: "stepGate fin (contributionStepOf npd) COMPUTING"
  shows "(regexMatch contributionHashPattern (readFile w (contributionTranscriptLocalPath w cir gh fin)) = None \<longrightarrow>
            snd (makeContribution w cer cir ent gh fin npd) = Inl (Fatal GENERIC_CONTRIBUTION_HASH_INVALID)
            \<and> filter isStoreHash (fst (makeContribution w cer cir ent gh fin npd)) = []
            \<and> last (fst (makeContribution w cer cir ent gh fin npd)) = zkeyCall w cir ent gh fin)
       \<and> ((\<forall>i. \<not> startsHashBlock (drop i (readFile w (contributionTranscriptLocalPath w cir gh fin)))) \<longrightarrow>
            snd (makeContribution w cer cir ent gh fin npd) = Inl (Fatal GENERIC_CONTRIBUTION_HASH_INVALID)
            \<and> filter isStoreHash (fst (makeContribution w cer cir ent gh fin npd)) = []
            \<and> last (fst (makeContribution w cer cir ent gh fin npd)) = zkeyCall w cir ent gh fin)
       \<and> (\<forall>m. regexMatch contributionHashPattern (readFile w (contributionTranscriptLocalPath w cir gh fin)) = Some m \<longrightarrow>
            filter isStoreHash (fst (makeContribution w cer cir ent gh fin npd))
              = [PermanentlyStoreCurrentContributionTimeAndHash (ceremonyId cer) (timerMs w)
                   (Some (replaceFirst [CHR 0x0A, CHR 0x09, CHR 0x09] [] m))]
            \<and> makeContribution w cer cir ent gh fin npd =
                ((if stepGate fin (contributionStepOf npd) DOWNLOADING
                  then fst (downloadBlock w cer cir fin) else [])
                 @ [zkeyCall w cir ent gh fin,
                    PermanentlyStoreCurrentContributionTimeAndHash (ceremonyId cer) (timerMs w)
                      (Some (replaceFirst [CHR 0x0A, CHR 0x09, CHR 0x09] [] m))]
                 @ (if fin then [] else [ProgressToNextContributionStep (ceremonyId cer)])
                 @ fst (andThen (uploadBlock w cer cir fin npd) (\<lambda>_. verifyBlock w cer cir gh)),
                 snd (andThen (uploadBlock w cer cir fin npd) (\<lambda>_. verifyBlock w cer cir gh)))
            \<and> snd (makeContribution w cer cir ent gh fin npd) \<noteq> Inl (Fatal GENERIC_CONTRIBUTION_HASH_INVALID)
            \<and> (truthyString (presignedUrlExpiration w) \<and> verifyResponse w \<noteq> None \<longrightarrow>
                  snd (makeContribution w cer cir ent gh fin npd) = Inr ()
                  \<and> stepsExecuted (fst (makeContribution w cer cir ent gh fin npd))
                      = filter (stepGate fin (contributionStepOf npd))
                          [DOWNLOADING, COMPUTING, UPLOADING, VERIFYING]))
       \<and> (\<forall>pre a b l1 l2 l3 l4 post.
            readFile w (contributionTranscriptLocalPath w cir gh fin) = pre @ hashBlock a b l1 l2 l3 l4 @ post
            \<and> lineText a \<and> lineText b \<and> lineText l1 \<and> lineText l2 \<and> lineText l3 \<and> lineText l4
            \<and> (\<forall>i<length pre. \<not> startsHashBlock
                   (drop i (readFile w (contributionTranscriptLocalPath w cir gh fin)))) \<longrightarrow>
            regexMatch contributionHashPattern (readFile w (contributionTranscriptLocalPath w cir gh fin))
              = Some (hashBlock a b l1 l2 l3 l4)
            \<and> replaceFirst [CHR 0x0A, CHR 0x09, CHR 0x09] [] (hashBlock a b l1 l2 l3 l4)
                = hashFingerprint a b l1 l2 l3 l4
            \<and> filter isStoreHash (fst (makeContribution w cer cir ent gh fin npd))
                = [PermanentlyStoreCurrentContributionTimeAndHash (ceremonyId cer) (timerMs w)
                     (Some (hashFingerprint a b l1 l2 l3 l4))])"
proof -
  let ?T = "readFile w (contributionTranscriptLocalPath w cir gh fin)"
  let ?run = "makeContribution w cer cir ent gh fin npd"
  let ?rest = "andThen (uploadBlock w cer cir fin npd) (\<lambda>_. verifyBlock w cer cir gh)"
  have gU: "stepGate fin (contributionStepOf npd) UPLOADING" and gV: "stepGate fin (contributionStepOf npd) VERIFYING"
    using g stepGate_mono by blast+
  have zk: "isStoreHash (zkeyCall w cir ent gh f) = False" for f
    by (simp add: zkeyCall_def)
  have none: "snd ?run = Inl (Fatal GENERIC_CONTRIBUTION_HASH_INVALID)
            \<and> filter isStoreHash (fst ?run) = []
            \<and> last (fst ?run) = zkeyCall w cir ent gh fin"
    if n: "regexMatch contributionHashPattern ?T = None"
  proof -
    have c: "computeBlock w cer cir ent gh fin =
           ([zkeyCall w cir ent gh fin], Inl (Fatal GENERIC_CONTRIBUTION_HASH_INVALID))"
      using norej n by (intro computeBlock_no_hash) simp_all
    show ?thesis
      unfolding makeContribution_gates downloadBlock_resolving [OF norej] c
      using g by (simp add: zk)
  qed
  have some: "filter isStoreHash (fst ?run)
              = [PermanentlyStoreCurrentContributionTimeAndHash (ceremonyId cer) (timerMs w)
                   (Some (replaceFirst [CHR 0x0A, CHR 0x09, CHR 0x09] [] m))]
            \<and> ?run =
                ((if stepGate fin (contributionStepOf npd) DOWNLOADING
                  then fst (downloadBlock w cer cir fin) else [])
                 @ [zkeyCall w cir ent gh fin,
                    PermanentlyStoreCurrentContributionTimeAndHash (ceremonyId cer) (timerMs w)
                      (Some (replaceFirst [CHR 0x0A, CHR 0x09, CHR 0x09] [] m))]
                 @ (if fin then [] else [ProgressToNextContributionStep (ceremonyId cer)])
                 @ fst ?rest, snd ?rest)
            \<and> snd ?run \<noteq> Inl (Fatal GENERIC_CONTRIBUTION_HASH_INVALID)
            \<and> (truthyString (presignedUrlExpiration w) \<and> verifyResponse w \<noteq> None \<longrightarrow>
                  snd ?run = Inr ()
                  \<and> stepsExecuted (fst ?run)
                      = filter (stepGate fin (contributionStepOf npd))
                          [DOWNLOADING, COMPUTING, UPLOADING, VERIFYING])"
    if s: "regexMatch contributionHashPattern ?T = Some m" for m
  proof -
    have rs: "filter isStoreHash (fst ?rest) = []"
    proof -
      have "\<forall>e\<in>set (fst ?rest). \<not> isStoreHash e"
      proof (intro events_andThen)
        show "\<forall>e\<in>set (fst (uploadBlock w cer cir fin npd)). \<not> isStoreHash e"
          using events_uploadBlock [of w cer cir fin npd]
          by (fastforce dest: isStoreHash_step simp: isProgressRequest_step)
        show "\<forall>e\<in>set (fst (verifyBlock w cer cir gh)). \<not> isStoreHash e" for x :: unit
          using events_verifyBlock [of w cer cir gh] by (fastforce dest: isStoreHash_step)
      qed
      then show ?thesis by (simp add: filter_empty_conv)
    qed
    have re: "snd ?rest \<noteq> Inl (Fatal GENERIC_CONTRIBUTION_HASH_INVALID)"
    proof -
      have "\<forall>e. snd ?rest = Inl e \<longrightarrow> e \<noteq> Fatal GENERIC_CONTRIBUTION_HASH_INVALID"
        by (intro errors_andThen errors_uploadBlock errors_verifyBlock)
      then show ?thesis by blast
    qed
    have ok: "snd ?run = Inr ()
              \<and> stepsExecuted (fst ?run)
                  = filter (stepGate fin (contributionStepOf npd)) [DOWNLOADING, COMPUTING, UPLOADING, VERIFYING]"
      if c: "truthyString (presignedUrlExpiration w)" and v: "verifyResponse w \<noteq> None"
    proof -
      have "regexMatch contributionHashPattern ?T \<noteq> None" using s by simp
      from steps_executed_resolving [OF norej c this v, of cer ent npd]
      show ?thesis by simp
    qed
    have run: "?run =
        ((if stepGate fin (contributionStepOf npd) DOWNLOADING then fst (downloadBlock w cer cir fin) else [])
         @ [zkeyCall w cir ent gh fin,
            PermanentlyStoreCurrentContributionTimeAndHash (ceremonyId cer) (timerMs w)
              (Some (replaceFirst [CHR 0x0A, CHR 0x09, CHR 0x09] [] m))]
         @ (if fin then [] else [ProgressToNextContributionStep (ceremonyId cer)])
         @ fst ?rest, snd ?rest)"
      unfolding makeContribution_gates computeBlock_resolving [OF norej s]
      using g gU gV by (simp add: downloadBlock_resolving [OF norej])
    have dl: "filter isStoreHash (fst (downloadBlock w cer cir fin)) = []"
      by (simp add: downloadBlock_resolving [OF norej])
    have a: "filter isStoreHash (fst ?run)
              = [PermanentlyStoreCurrentContributionTimeAndHash (ceremonyId cer) (timerMs w)
                   (Some (replaceFirst [CHR 0x0A, CHR 0x09, CHR 0x09] [] m))]"
      unfolding run by (simp add: zk rs dl)
    have b: "snd ?run \<noteq> Inl (Fatal GENERIC_CONTRIBUTION_HASH_INVALID)"
      unfolding run using re by simp
    show ?thesis using a run b ok by (intro conjI impI) simp_all
  qed
  have c1: "regexMatch contributionHashPattern ?T = None \<longrightarrow>
            snd ?run = Inl (Fatal GENERIC_CONTRIBUTION_HASH_INVALID)
            \<and> filter isStoreHash (fst ?run) = []
            \<and> last (fst ?run) = zkeyCall w cir ent gh fin"
    using none by (rule impI)
  have c2: "(\<forall>i. \<not> startsHashBlock (drop i ?T)) \<longrightarrow>
            snd ?run = Inl (Fatal GENERIC_CONTRIBUTION_HASH_INVALID)
            \<and> filter isStoreHash (fst ?run) = []
            \<and> last (fst ?run) = zkeyCall w cir ent gh fin"
  proof
    assume "\<forall>i. \<not> startsHashBlock (drop i ?T)"
    then have "regexMatch contributionHashPattern ?T = None" by (rule regexMatch_no_hashBlock)
    then show "snd ?run = Inl (Fatal GENERIC_CONTRIBUTION_HASH_INVALID)
            \<and> filter isStoreHash (fst ?run) = []
            \<and> last (fst ?run) = zkeyCall w cir ent gh fin"
      by (rule none)
  qed
  have c3: "\<forall>m. regexMatch contributionHashPattern ?T = Some m \<longrightarrow>
            filter isStoreHash (fst ?run)
              = [PermanentlyStoreCurrentContributionTimeAndHash (ceremonyId cer) (timerMs w)
                   (Some (replaceFirst [CHR 0x0A, CHR 0x09, CHR 0x09] [] m))]
            \<and> ?run =
                ((if stepGate fin (contributionStepOf npd) DOWNLOADING
                  then fst (downloadBlock w cer cir fin) else [])
                 @ [zkeyCall w cir ent gh fin,
                    PermanentlyStoreCurrentContributionTimeAndHash (ceremonyId cer) (timerMs w)
                      (Some (replaceFirst [CHR 0x0A, CHR 0x09, CHR 0x09] [] m))]
                 @ (if fin then [] else [ProgressToNextContributionStep (ceremonyId cer)])
                 @ fst ?rest, snd ?rest)
            \<and> snd ?run \<noteq> Inl (Fatal GENERIC_CONTRIBUTION_HASH_INVALID)
            \<and> (truthyString (presignedUrlExpiration w) \<and> verifyResponse w \<noteq> None \<longrightarrow>
                  snd ?run = Inr ()
                  \<and> stepsExecuted (fst ?run)
                      = filter (stepGate fin (contributionStepOf npd))
                          [DOWNLOADING, COMPUTING, UPLOADING, VERIFYING])"
    using some by (intro allI impI)
  have c4: "\<forall>pre a b l1 l2 l3 l4 post.
            ?T = pre @ hashBlock a b l1 l2 l3 l4 @ post
            \<and> lineText a \<and> lineText b \<and> lineText l1 \<and> lineText l2 \<and> lineText l3 \<and> lineText l4
            \<and> (\<forall>i<length pre. \<not> startsHashBlock (drop i ?T)) \<longrightarrow>
            regexMatch contributionHashPattern ?T = Some (hashBlock a b l1 l2 l3 l4)
            \<and> replaceFirst [CHR 0x0A, CHR 0x09, CHR 0x09] [] (hashBlock a b l1 l2 l3 l4)
                = hashFingerprint a b l1 l2 l3 l4
            \<and> filter isStoreHash (fst ?run)
                = [PermanentlyStoreCurrentContributionTimeAndHash (ceremonyId cer) (timerMs w)
                     (Some (hashFingerprint a b l1 l2 l3 l4))]"
  proof (intro allI impI, elim conjE)
    fix pre a b l1 l2 l3 l4 post
    assume T: "?T = pre @ hashBlock a b l1 l2 l3 l4 @ post"
      and lt: "lineText a" "lineText b" "lineText l1" "lineText l2" "lineText l3" "lineText l4"
      and first: "\<forall>i<length pre. \<not> startsHashBlock (drop i ?T)"
    have m: "regexMatch contributionHashPattern ?T = Some (hashBlock a b l1 l2 l3 l4)"
      using first unfolding T by (rule regexMatch_hashBlock [OF lt])
    have r: "replaceFirst [CHR 0x0A, CHR 0x09, CHR 0x09] [] (hashBlock a b l1 l2 l3 l4)
             = hashFingerprint a b l1 l2 l3 l4"
      using lt(1,2) by (rule replaceFirst_hashBlock)
    have "filter isStoreHash (fst ?run)
          = [PermanentlyStoreCurrentContributionTimeAndHash (ceremonyId cer) (timerMs w)
               (Some (replaceFirst [CHR 0x0A, CHR 0x09, CHR 0x09] [] (hashBlock a b l1 l2 l3 l4)))]"
      using some [OF m] by (rule conjunct1)
    then show "regexMatch contributionHashPattern ?T = Some (hashBlock a b l1 l2 l3 l4)
            \<and> replaceFirst [CHR 0x0A, CHR 0x09, CHR 0x09] [] (hashBlock a b l1 l2 l3 l4)
                = hashFingerprint a b l1 l2 l3 l4
            \<and> filter isStoreHash (fst ?run)
                = [PermanentlyStoreCurrentContributionTimeAndHash (ceremonyId cer) (timerMs w)
                     (Some (hashFingerprint a b l1 l2 l3 l4))]"
      using m r by simp
  qed
  show ?thesis
    by (intro conjI) (rule c1, rule c2, rule c3, rule c4)
qed

theorem C6_contribution_hash_witness:
  "(\<forall>e. \<not> rejects noHashWorld e) \<and> stepGate False (contributionStepOf (Some sampleFresh)) COMPUTING
   \<and> regexMatch contributionHashPattern
        (readFile noHashWorld (contributionTranscriptLocalPath noHashWorld sampleCircuit ''alice'' False)) = None
   \<and> snd (makeContribution noHashWorld sampleCeremony sampleCircuit ''entropy'' ''alice'' False (Some sampleFresh))
       = Inl (Fatal GENERIC_CONTRIBUTION_HASH_INVALID)
   \<and> filter isStoreHash
        (fst (makeContribution noHashWorld sampleCeremony sampleCircuit ''entropy'' ''alice'' False
           (Some sampleFresh))) = []
   \<and> (\<forall>e. \<not> rejects logWorld e)
   \<and> readFile logWorld (contributionTranscriptLocalPath logWorld sampleCircuit ''alice'' False)
       = (''Contribution 4 started'' @ [CHR 0x0A] @ ''snarkJS: '')
         @ hashBlock '' #1 '' '': '' ''aaaa'' ''bbbb'' ''cccc'' ''dddd'' @ ''snarkJS: done''
   \<and> lineText '' #1 '' \<and> lineText '': '' \<and> lineText ''aaaa'' \<and> lineText ''bbbb''
   \<and> lineText ''cccc'' \<and> lineText ''dddd''
   \<and> list_all
         (\<lambda>i. \<not> startsHashBlock
                (drop i (readFile logWorld (contributionTranscriptLocalPath logWorld sampleCircuit ''alice'' False))))
         [0..<length (''Contribution 4 started'' @ [CHR 0x0A] @ ''snarkJS: '')]
   \<and> filter isStoreHash
        (fst (makeContribution logWorld sampleCeremony sampleCircuit ''entropy'' ''alice'' False
           (Some sampleFresh)))
       = [PermanentlyStoreCurrentContributionTimeAndHash ''cer-1'' 1000
            (Some (''Contribution #1 Hash: aaaa'' @ [CHR 0x0A, CHR 0x09, CHR 0x09] @ ''bbbb'' @ [CHR 0x0A]
                   @ ''cccc'' @ [CHR 0x0A, CHR 0x09, CHR 0x09] @ ''dddd'' @ [CHR 0x0A]))]
   \<and> snd (makeContribution logWorld sampleCeremony sampleCircuit ''entropy'' ''alice'' False (Some sampleFresh))
       = Inr ()
   \<and> stepsExecuted (fst (makeContribution logWorld sampleCeremony sampleCircuit ''entropy'' ''alice'' False
        (Some sampleFresh))) = [DOWNLOADING, COMPUTING, UPLOADING, VERIFYING]"
proof -
  let ?pre = "''Contribution 4 started'' @ [CHR 0x0A] @ ''snarkJS: ''"
  have n1: "\<forall>e. \<not> rejects noHashWorld e" by simp
  have s1: "\<forall>e. \<not> rejects logWorld e" by simp
  have g: "stepGate False (contributionStepOf (Some sampleFresh)) COMPUTING"
    by (simp add: contributionStepOf_def sampleFresh_def stepGate_cases)
  have n2: "regexMatch contributionHashPattern
        (readFile noHashWorld (contributionTranscriptLocalPath noHashWorld sampleCircuit ''alice'' False)) = None"
    by (simp add: sample_no_match)
  have c: "truthyString (presignedUrlExpiration logWorld)" "verifyResponse logWorld \<noteq> None"
    by (simp_all add: truthyString_def)
  have t: "readFile logWorld (contributionTranscriptLocalPath logWorld sampleCircuit ''alice'' False)
       = ?pre @ hashBlock '' #1 '' '': '' ''aaaa'' ''bbbb'' ''cccc'' ''dddd'' @ ''snarkJS: done''"
    by (simp add: sampleLog_def)
  have lt: "lineText '' #1 ''" "lineText '': ''" "lineText ''aaaa''" "lineText ''bbbb''"
      "lineText ''cccc''" "lineText ''dddd''"
    by (simp_all add: lineText_def isLineTerminator_def)
  have scan: "list_all (\<lambda>i. matchAt contributionHashPattern (drop i sampleLog) = None) [0..<32]"
    by code_simp
  have len: "length ?pre = 32" by simp
  have rf: "readFile logWorld (contributionTranscriptLocalPath logWorld sampleCircuit ''alice'' False) = sampleLog"
    by simp
  have before: "list_all
         (\<lambda>i. \<not> startsHashBlock
                (drop i (readFile logWorld (contributionTranscriptLocalPath logWorld sampleCircuit ''alice'' False))))
         [0..<length ?pre]"
    unfolding rf len startsHashBlock_iff not_not by (rule scan)
  have first: "\<forall>i<length ?pre. \<not> startsHashBlock
             (drop i (readFile logWorld (contributionTranscriptLocalPath logWorld sampleCircuit ''alice'' False)))"
    using before by (simp only: list_all_iff set_upt atLeast0LessThan lessThan_iff Ball_def)
  note noHash = C6_contribution_hash [OF n1 g, of sampleCircuit "''alice''" sampleCeremony "''entropy''",
      THEN conjunct1, rule_format, OF n2]
  note log = C6_contribution_hash [OF s1 g, of sampleCircuit "''alice''" sampleCeremony "''entropy''"]
  note shape = log [THEN conjunct2, THEN conjunct2, THEN conjunct2, rule_format,
      of ?pre "'' #1 ''" "'': ''" "''aaaa''" "''bbbb''" "''cccc''" "''dddd''" "''snarkJS: done''"]
  have all: "readFile logWorld (contributionTranscriptLocalPath logWorld sampleCircuit ''alice'' False)
       = ?pre @ hashBlock '' #1 '' '': '' ''aaaa'' ''bbbb'' ''cccc'' ''dddd'' @ ''snarkJS: done''
      \<and> lineText '' #1 '' \<and> lineText '': '' \<and> lineText ''aaaa'' \<and> lineText ''bbbb''
      \<and> lineText ''cccc'' \<and> lineText ''dddd''
      \<and> (\<forall>i<length ?pre. \<not> startsHashBlock
             (drop i (readFile logWorld (contributionTranscriptLocalPath logWorld sampleCircuit ''alice'' False))))"
    using t lt first by (intro conjI)
  have m: "regexMatch contributionHashPattern
        (readFile logWorld (contributionTranscriptLocalPath logWorld sampleCircuit ''alice'' False))
       = Some (hashBlock '' #1 '' '': '' ''aaaa'' ''bbbb'' ''cccc'' ''dddd'')"
    using shape [OF all] by (rule conjunct1)
  have stored: "filter isStoreHash
        (fst (makeContribution logWorld sampleCeremony sampleCircuit ''entropy'' ''alice'' False
           (Some sampleFresh)))
       = [PermanentlyStoreCurrentContributionTimeAndHash ''cer-1'' 1000
            (Some (''Contribution #1 Hash: aaaa'' @ [CHR 0x0A, CHR 0x09, CHR 0x09] @ ''bbbb'' @ [CHR 0x0A]
                   @ ''cccc'' @ [CHR 0x0A, CHR 0x09, CHR 0x09] @ ''dddd'' @ [CHR 0x0A]))]"
    using shape [OF all, THEN conjunct2, THEN conjunct2]
    by (simp add: hashFingerprint_def sampleCeremony_def)
  have goes_on: "snd (makeContribution logWorld sampleCeremony sampleCircuit ''entropy'' ''alice'' False
          (Some sampleFresh)) = Inr ()
      \<and> stepsExecuted (fst (makeContribution logWorld sampleCeremony sampleCircuit ''entropy'' ''alice'' False
          (Some sampleFresh)))
        = filter (stepGate False (contributionStepOf (Some sampleFresh)))
            [DOWNLOADING, COMPUTING, UPLOADING, VERIFYING]"
    using log [THEN conjunct2, THEN conjunct2, THEN conjunct1, rule_format, OF m,
        THEN conjunct2, THEN conjunct2, THEN conjunct2] c
    by blast
  then have fin: "snd (makeContribution logWorld sampleCeremony sampleCircuit ''entropy'' ''alice'' False
          (Some sampleFresh)) = Inr ()"
    and steps: "stepsExecuted (fst (makeContribution logWorld sampleCeremony sampleCircuit ''entropy'' ''alice'' False
          (Some sampleFresh))) = [DOWNLOADING, COMPUTING, UPLOADING, VERIFYING]"
    by (simp_all add: contributionStepOf_def sampleFresh_def stepGate_cases)
  show ?thesis
    using n1 g n2 noHash [THEN conjunct1] noHash [THEN conjunct2, THEN conjunct1] s1 t lt before stored fin steps
    by (intro conjI)
qed

end
